theory Spec2Isabelle
  imports Main "HOL-Library.Sublist"
begin

section \<open>Strings\<close>

text \<open>
  A JavaScript string is modelled as a \<open>char list\<close>: a sequence of code units below 256
  (the Latin-1 range of UTF-16).  On that range \<open>toLowerCase\<close> maps \<open>A-Z\<close> and the
  accented capitals \<open>0xC0-0xDE\<close> (without the multiplication sign \<open>0xD7\<close>) to the code
  unit 32 above and leaves everything else alone.
\<close>

definition caseTable :: "(char \<times> char) list" where
  "caseTable =
     zip ''ABCDEFGHIJKLMNOPQRSTUVWXYZ'' ''abcdefghijklmnopqrstuvwxyz'' @
     zip [CHR 0xC0, CHR 0xC1, CHR 0xC2, CHR 0xC3, CHR 0xC4, CHR 0xC5, CHR 0xC6, CHR 0xC7,
          CHR 0xC8, CHR 0xC9, CHR 0xCA, CHR 0xCB, CHR 0xCC, CHR 0xCD, CHR 0xCE, CHR 0xCF,
          CHR 0xD0, CHR 0xD1, CHR 0xD2, CHR 0xD3, CHR 0xD4, CHR 0xD5, CHR 0xD6,
          CHR 0xD8, CHR 0xD9, CHR 0xDA, CHR 0xDB, CHR 0xDC, CHR 0xDD, CHR 0xDE]
         [CHR 0xE0, CHR 0xE1, CHR 0xE2, CHR 0xE3, CHR 0xE4, CHR 0xE5, CHR 0xE6, CHR 0xE7,
          CHR 0xE8, CHR 0xE9, CHR 0xEA, CHR 0xEB, CHR 0xEC, CHR 0xED, CHR 0xEE, CHR 0xEF,
          CHR 0xF0, CHR 0xF1, CHR 0xF2, CHR 0xF3, CHR 0xF4, CHR 0xF5, CHR 0xF6,
          CHR 0xF8, CHR 0xF9, CHR 0xFA, CHR 0xFB, CHR 0xFC, CHR 0xFD, CHR 0xFE]"

definition toLowerChar :: "char \<Rightarrow> char" where
  "toLowerChar x = (case map_of caseTable x of Some l \<Rightarrow> l | None \<Rightarrow> x)"

definition toLowerCase :: "string \<Rightarrow> string" where
  "toLowerCase s = map toLowerChar s"

text \<open>
  \<open>toUpperCase\<close> is only ever applied to verb names made of ASCII letters; the model is
  exact on the code units that have a one-unit Latin-1 capital and leaves the others alone.
\<close>

definition toUpperChar :: "char \<Rightarrow> char" where
  "toUpperChar x = (case map_of (map (\<lambda>(u, l). (l, u)) caseTable) x of Some u \<Rightarrow> u | None \<Rightarrow> x)"

definition toUpperCase :: "string \<Rightarrow> string" where
  "toUpperCase s = map toUpperChar s"

text \<open>\<open>s.endsWith(t)\<close> is \<^const>\<open>suffix\<close>, \<open>s.startsWith(t)\<close> is \<^const>\<open>prefix\<close>.\<close>

text \<open>\<open>s.includes(t)\<close>\<close>

definition includes_str :: "string \<Rightarrow> string \<Rightarrow> bool" where
  "includes_str s t = sublist t s"

section \<open>Regular expressions\<close>

text \<open>
  The regular expressions of the source are kept as syntax trees and run by a backtracking
  matcher.  \<open>m r s c\<close> lists, in the order in which a backtracking engine tries them, the
  ways in which \<open>r\<close> matches a prefix of \<open>s\<close>: each entry is the text left over and the
  capture groups.  The first entry is the match the engine reports.  \<open>Star\<close> is greedy and
  drops an iteration that consumes nothing.
\<close>

datatype re = Eps | Eol | Cls "char list" | NCls "char list"
  | Seq re re | Alt re re | Star re | Grp nat re

type_synonym caps = "nat \<rightharpoonup> string"

function m :: "re \<Rightarrow> string \<Rightarrow> caps \<Rightarrow> (string \<times> caps) list" where
  "m Eps s c = [(s, c)]"
| "m Eol s c = (if s = [] then [(s, c)] else [])"
| "m (Cls cs) s c = (case s of [] \<Rightarrow> [] | x # xs \<Rightarrow> if x \<in> set cs then [(xs, c)] else [])"
| "m (NCls cs) s c = (case s of [] \<Rightarrow> [] | x # xs \<Rightarrow> if x \<notin> set cs then [(xs, c)] else [])"
| "m (Seq r1 r2) s c = concat (map (\<lambda>(s', c'). m r2 s' c') (m r1 s c))"
| "m (Alt r1 r2) s c = m r1 s c @ m r2 s c"
| "m (Star r) s c =
     concat (map (\<lambda>(s', c'). if length s' < length s then m (Star r) s' c' else []) (m r s c))
     @ [(s, c)]"
| "m (Grp n r) s c = map (\<lambda>(s', c'). (s', c'(n \<mapsto> take (length s - length s') s))) (m r s c)"
  by pat_completeness auto
termination
  by (relation "measures [\<lambda>(r, s, c). size r, \<lambda>(r, s, c). length s]") auto

declare m.simps(7) [simp del]

definition Plus :: "re \<Rightarrow> re" where
  "Plus r = Seq r (Star r)"

definition seqs :: "re list \<Rightarrow> re" where
  "seqs rs = foldr Seq rs Eps"

definition lit :: "string \<Rightarrow> re" where
  "lit w = seqs (map (\<lambda>ch. Cls [ch]) w)"

text \<open>A literal under the \<open>i\<close> flag: each letter matches in either case.\<close>

definition liti :: "string \<Rightarrow> re" where
  "liti w = seqs (map (\<lambda>ch. Cls [toLowerChar ch, toUpperChar ch]) w)"

definition alts :: "re list \<Rightarrow> re" where
  "alts rs = foldr Alt (butlast rs) (last rs)"

text \<open>
  \<open>search r pre s\<close> is \<open>String.prototype.match\<close> / \<open>RegExp.prototype.exec\<close> from the
  position after \<open>pre\<close>: the leftmost position at which \<open>r\<close> matches, as the text before
  the match, the text from the match on, the text after the match, and the groups.
\<close>

fun search :: "re \<Rightarrow> string \<Rightarrow> string \<Rightarrow> (string \<times> string \<times> string \<times> caps) option" where
  "search r pre [] =
     (case m r [] Map.empty of (s', c) # _ \<Rightarrow> Some (pre, [], s', c) | [] \<Rightarrow> None)"
| "search r pre (x # xs) =
     (case m r (x # xs) Map.empty of (s', c) # _ \<Rightarrow> Some (pre, x # xs, s', c)
      | [] \<Rightarrow> search r (pre @ [x]) xs)"

text \<open>
  Two syntactic checks: \<open>consuming r\<close> holds if every match of \<open>r\<close> takes at least one
  character, and \<open>groups r\<close> lists the numbers of the capture groups of \<open>r\<close>.
\<close>

fun consuming :: "re \<Rightarrow> bool" where
  "consuming Eps = False"
| "consuming Eol = False"
| "consuming (Cls cs) = True"
| "consuming (NCls cs) = True"
| "consuming (Seq r1 r2) = (consuming r1 \<or> consuming r2)"
| "consuming (Alt r1 r2) = (consuming r1 \<and> consuming r2)"
| "consuming (Star r) = False"
| "consuming (Grp n r) = consuming r"

fun groups :: "re \<Rightarrow> nat list" where
  "groups (Seq r1 r2) = groups r1 @ groups r2"
| "groups (Alt r1 r2) = groups r1 @ groups r2"
| "groups (Star r) = groups r"
| "groups (Grp n r) = n # groups r"
| "groups r = []"

text \<open>\<open>s.replace(r, '')\<close> for a regular expression without the \<open>g\<close> flag.\<close>

definition replaceFirst :: "re \<Rightarrow> string \<Rightarrow> string" where
  "replaceFirst r s = (case search r [] s of None \<Rightarrow> s | Some (pre, _, post, _) \<Rightarrow> pre @ post)"

section \<open>Module names\<close>

text \<open>\<open>/(Service|Controller|Dto|Entity|Model|Type|Interface)$/i\<close>\<close>

definition suffixRe :: re where
  "suffixRe = Seq (Grp 1 (alts [liti ''Service'', liti ''Controller'', liti ''Dto'',
     liti ''Entity'', liti ''Model'', liti ''Type'', liti ''Interface''])) Eol"

text \<open>
  \<open>extractModuleFromName\<close>: \<open>None\<close> is the source's \<open>null\<close>; \<open>slice(0, -1)\<close> is
  \<^const>\<open>butlast\<close>.
\<close>

definition extractModuleFromName :: "string \<Rightarrow> string option" where
  "extractModuleFromName name =
     (if name = [] then None
      else let cleanName = toLowerCase (replaceFirst suffixRe name)
           in if suffix ''y'' cleanName then Some (butlast cleanName @ ''ies'')
              else if suffix ''s'' cleanName then Some cleanName
              else Some (cleanName @ ''s''))"

text \<open>
  The naming rule in the words of the specification: strip one of the suffixes from the end
  of the name if present (compared without regard to case), lower-case the remainder, then
  pluralize.
\<close>

definition nameSuffixes :: "string list" where
  "nameSuffixes = [''service'', ''controller'', ''dto'', ''entity'', ''model'', ''type'',
     ''interface'']"

definition stripSuffix_spec :: "string \<Rightarrow> string" where
  "stripSuffix_spec name =
     (case find (\<lambda>w. suffix w (toLowerCase name)) nameSuffixes of
        None \<Rightarrow> name
      | Some w \<Rightarrow> take (length name - length w) name)"

definition pluralize_spec :: "string \<Rightarrow> string" where
  "pluralize_spec w =
     (if w \<noteq> [] \<and> last w = CHR ''y'' then butlast w @ ''ies''
      else if w \<noteq> [] \<and> last w = CHR ''s'' then w
      else w @ ''s'')"

definition deriveModuleName_spec :: "string \<Rightarrow> string option" where
  "deriveModuleName_spec name =
     (if name = [] then None
      else Some (pluralize_spec (toLowerCase (stripSuffix_spec name))))"


section \<open>Data model\<close>

datatype framework = Express | NestJS | Fastify | Koa

record parameter =
  param_name :: string
  param_type :: string
  optional :: bool
  decorator :: "string option"

record route =
  path :: string
  route_method :: string
  handler :: string
  middleware :: "string list"
  parameters :: "parameter list"
  framework :: framework

record controller =
  controller_name :: string
  routes :: "route list"
  controller_framework :: framework
  controller_filePath :: string

record service_method =
  method_name :: string
  method_parameters :: "parameter list"
  returnType :: string
  isPublic :: bool

record service =
  service_name :: string
  methods :: "service_method list"
  service_filePath :: string
  service_framework :: framework

section \<open>Grouping routes into modules\<close>

text \<open>
  \<open>chunks\<close> is the object \<open>Record<string, any[]>\<close>, kept as an association list of its
  own properties in the order of their creation.  The object is created by the literal
  \<open>{}\<close>, so a read \<open>chunks[k]\<close> of a key it does not own falls through to
  \<open>Object.prototype\<close>: for the names below the read yields a function or an object, which
  is truthy and has no \<open>push\<close>, and the call \<open>chunks[k].push(route)\<close> throws.
\<close>

datatype error = TypeError

type_synonym chunks = "(string \<times> route list) list"

definition objectPrototypeKeys :: "string list" where
  "objectPrototypeKeys = [''constructor'', ''__defineGetter__'', ''__defineSetter__'',
     ''hasOwnProperty'', ''__lookupGetter__'', ''__lookupSetter__'', ''isPrototypeOf'',
     ''propertyIsEnumerable'', ''toString'', ''valueOf'', ''__proto__'', ''toLocaleString'']"

text \<open>\<open>Map.prototype.set\<close> and the assignment to a property: an existing key keeps its place.\<close>

fun setKey :: "('k \<times> 'v) list \<Rightarrow> 'k \<Rightarrow> 'v \<Rightarrow> ('k \<times> 'v) list" where
  "setKey [] k v = [(k, v)]"
| "setKey ((k', v') # kvs) k v = (if k' = k then (k, v) # kvs else (k', v') # setKey kvs k v)"

text \<open>\<open>if (!chunks[k]) { chunks[k] = [] }; chunks[k].push(route)\<close>\<close>

definition chunksPush :: "chunks \<Rightarrow> string \<Rightarrow> route \<Rightarrow> error + chunks" where
  "chunksPush chunks k r =
     (case map_of chunks k of
        Some rs \<Rightarrow> Inr (setKey chunks k (rs @ [r]))
      | None \<Rightarrow> if k \<in> set objectPrototypeKeys then Inl TypeError
                else Inr (setKey chunks k [r]))"

fun pushRoutes :: "chunks \<Rightarrow> string \<Rightarrow> route list \<Rightarrow> error + chunks" where
  "pushRoutes chunks k [] = Inr chunks"
| "pushRoutes chunks k (r # rs) =
     (case chunksPush chunks k r of Inl e \<Rightarrow> Inl e | Inr chunks' \<Rightarrow> pushRoutes chunks' k rs)"

text \<open>The first loop: module names from the services, a \<open>Map\<close> in insertion order.\<close>

fun serviceModules :: "(string \<times> string) list \<Rightarrow> service list \<Rightarrow> (string \<times> string) list" where
  "serviceModules sm [] = sm"
| "serviceModules sm (sv # svs) =
     (if service_name sv \<noteq> [] then
        (case extractModuleFromName (service_name sv) of
           Some moduleName \<Rightarrow>
             if moduleName \<noteq> [] then serviceModules (setKey sm moduleName (service_name sv)) svs
             else serviceModules sm svs
         | None \<Rightarrow> serviceModules sm svs)
      else serviceModules sm svs)"

text \<open>
  The second loop: the routes of every controller go under the controller's module name.
  \<open>controller.routes\<close> is an array and so always truthy.
\<close>

fun groupControllers :: "chunks \<Rightarrow> controller list \<Rightarrow> error + chunks" where
  "groupControllers chunks [] = Inr chunks"
| "groupControllers chunks (c # cs) =
     (if controller_name c \<noteq> [] then
        (case extractModuleFromName (controller_name c) of
           Some moduleName \<Rightarrow>
             if moduleName \<noteq> [] then
               (case pushRoutes chunks moduleName (routes c) of
                  Inl e \<Rightarrow> Inl e
                | Inr chunks' \<Rightarrow> groupControllers chunks' cs)
             else groupControllers chunks cs
         | None \<Rightarrow> groupControllers chunks cs)
      else groupControllers chunks cs)"

text \<open>\<open>/(Service|Controller)$/i\<close>\<close>

definition serviceBaseRe :: re where
  "serviceBaseRe = Seq (Grp 1 (alts [liti ''Service'', liti ''Controller''])) Eol"

definition serviceBase :: "string \<Rightarrow> string" where
  "serviceBase serviceName = toLowerCase (replaceFirst serviceBaseRe serviceName)"

text \<open>\<open>s.split('/')\<close>\<close>

fun split_slash :: "string \<Rightarrow> string list" where
  "split_slash [] = [[]]"
| "split_slash (x # xs) =
     (if x = CHR ''/'' then [] # split_slash xs
      else (case split_slash xs of w # ws \<Rightarrow> (x # w) # ws | [] \<Rightarrow> [[x]]))"

definition pathSegments :: "string \<Rightarrow> string list" where
  "pathSegments p = filter (\<lambda>segment. segment \<noteq> [] \<and> \<not> prefix '':'' segment) (split_slash p)"

text \<open>\<open>moduleName.replace(/[^a-zA-Z0-9-_]/g, '_')\<close>\<close>

definition moduleChars :: "char list" where
  "moduleChars = ''abcdefghijklmnopqrstuvwxyzABCDEFGHIJKLMNOPQRSTUVWXYZ0123456789-_''"

definition sanitize :: "string \<Rightarrow> string" where
  "sanitize moduleName = map (\<lambda>ch. if ch \<in> set moduleChars then ch else CHR ''_'') moduleName"

text \<open>
  The test of the first fallback strategy for one entry of the service map, and the module
  name the fallback gives to the route at position \<open>index\<close>, before sanitizing.
\<close>

definition handlerMatches :: "route \<Rightarrow> string \<times> string \<Rightarrow> bool" where
  "handlerMatches r entry =
     (case entry of (module, serviceName) \<Rightarrow>
        handler r \<noteq> [] \<and> includes_str (toLowerCase (handler r)) (serviceBase serviceName))"

definition fallbackModule :: "(string \<times> string) list \<Rightarrow> route \<Rightarrow> nat \<Rightarrow> string" where
  "fallbackModule sm r index =
     (let moduleName =
        (case find (handlerMatches r) sm of
           Some (module, _) \<Rightarrow> module
         | None \<Rightarrow> ''unknown'')
      in if moduleName = ''unknown'' then
           (if path r = ''/'' \<or> path r = [] then ''app''
            else (case pathSegments (path r) of
                    segment # _ \<Rightarrow> toLowerCase segment
                  | [] \<Rightarrow>
                      (let routeGroup = index div 3;
                           moduleNames = map fst sm
                       in if routeGroup < length moduleNames then
                            (if moduleNames ! routeGroup = [] then ''app''
                             else moduleNames ! routeGroup)
                          else ''app'')))
         else moduleName)"

fun groupFallback :: "(string \<times> string) list \<Rightarrow> chunks \<Rightarrow> nat \<Rightarrow> route list \<Rightarrow> error + chunks" where
  "groupFallback sm chunks index [] = Inr chunks"
| "groupFallback sm chunks index (r # rs) =
     (case chunksPush chunks (sanitize (fallbackModule sm r index)) r of
        Inl e \<Rightarrow> Inl e
      | Inr chunks' \<Rightarrow> groupFallback sm chunks' (Suc index) rs)"

definition groupRoutesByController ::
  "route list \<Rightarrow> service list \<Rightarrow> controller list \<Rightarrow> error + chunks" where
  "groupRoutesByController rs services controllers =
     (case groupControllers [] controllers of
        Inl e \<Rightarrow> Inl e
      | Inr chunks \<Rightarrow>
          if length chunks = 0 then groupFallback (serviceModules [] services) chunks 0 rs
          else Inr chunks)"

section \<open>Pattern extraction\<close>

text \<open>The character classes \<open>\w\<close>, \<open>\s\<close> and \<open>['"`]\<close>, and the backslash.\<close>

definition wordChars :: "char list" where
  "wordChars = ''abcdefghijklmnopqrstuvwxyzABCDEFGHIJKLMNOPQRSTUVWXYZ0123456789_''"

definition spaceChars :: "char list" where
  "spaceChars = [CHR 0x09, CHR 0x0A, CHR 0x0B, CHR 0x0C, CHR 0x0D, CHR 0x20, CHR 0xA0]"

definition quoteChars :: "char list" where
  "quoteChars = [CHR 0x27, CHR 0x22, CHR 0x60]"

definition bs :: string where
  "bs = [CHR 0x5C]"

text \<open>
  A pattern of the source is kept twice: as the text that \<open>pattern.toString()\<close> returns
  and as the syntax tree that the matcher runs.
\<close>

record pattern =
  source :: string
  regex :: re

text \<open>\<open>(get|post|put|delete|patch)\<close> and \<open>(Get|Post|Put|Delete|Patch)\<close>\<close>

definition verbs :: "string list" where
  "verbs = [''get'', ''post'', ''put'', ''delete'', ''patch'']"

definition Verbs :: "string list" where
  "Verbs = [''Get'', ''Post'', ''Put'', ''Delete'', ''Patch'']"

text \<open>\<open>/recv\.(get|post|put|delete|patch)\(['"`]([^'"`]+)['"`],\s*([^,)]+)/g\<close>\<close>

definition callRe :: "string \<Rightarrow> re" where
  "callRe recv = seqs [lit recv, Cls ''.'', Grp 1 (alts (map lit verbs)), Cls ''('',
     Cls quoteChars, Grp 2 (Plus (NCls quoteChars)), Cls quoteChars, Cls '','',
     Star (Cls spaceChars), Grp 3 (Plus (NCls '',)''))]"

definition callSource :: "string \<Rightarrow> string" where
  "callSource recv = ''/'' @ recv @ bs @ ''.(get|post|put|delete|patch)'' @ bs @ ''(['' @ quoteChars
     @ '']([^'' @ quoteChars @ '']+)['' @ quoteChars @ ''],'' @ bs @ ''s*([^,)]+)/g''"

text \<open>\<open>/@(Get|Post|Put|Delete|Patch)\(['"`]([^'"`]*)['"`]\)/g\<close>\<close>

definition nestRe :: re where
  "nestRe = seqs [Cls ''@'', Grp 1 (alts (map lit Verbs)), Cls ''('', Cls quoteChars,
     Grp 2 (Star (NCls quoteChars)), Cls quoteChars, Cls '')'']"

definition nestSource :: string where
  "nestSource = ''/@(Get|Post|Put|Delete|Patch)'' @ bs @ ''(['' @ quoteChars @ '']([^''
     @ quoteChars @ '']*)['' @ quoteChars @ '']'' @ bs @ '')/g''"

definition callPattern :: "string \<Rightarrow> pattern" where
  "callPattern recv = \<lparr>source = callSource recv, regex = callRe recv\<rparr>"

definition nestPattern :: pattern where
  "nestPattern = \<lparr>source = nestSource, regex = nestRe\<rparr>"

text \<open>The ordered pattern list of \<open>GenericExtractor.extractRoutes\<close>.\<close>

definition routePatterns :: "pattern list" where
  "routePatterns = [callPattern ''app'', callPattern ''router'', nestPattern,
     callPattern ''fastify'', callPattern ''router'']"

text \<open>
  \<open>while ((match = pattern.exec(text)) !== null)\<close> for a pattern with the \<open>g\<close> flag: each
  round searches from the end of the previous match.  A match is kept as the text after it
  and its groups.  A match that consumes nothing leaves \<open>lastIndex\<close> where it was, and the
  loop never ends: that is the result \<open>None\<close>.
\<close>

function execAll :: "re \<Rightarrow> string \<Rightarrow> (string \<times> caps) list option" where
  "execAll r s =
     (case search r [] s of
        None \<Rightarrow> Some []
      | Some (pre, ms, post, c) \<Rightarrow>
          if length post < length s then map_option ((#) (post, c)) (execAll r post)
          else None)"
  by pat_completeness auto
termination
  by (relation "measure (\<lambda>(r, s). length s)") auto

declare execAll.simps [simp del]

text \<open>
  \<open>x || d\<close> and \<open>x || undefined\<close> for a string \<open>x\<close> that may be \<open>undefined\<close>: the
  empty string is falsy.
\<close>

definition orElse :: "string option \<Rightarrow> string \<Rightarrow> string" where
  "orElse x d = (case x of None \<Rightarrow> d | Some v \<Rightarrow> if v = [] then d else v)"

definition orUndefined :: "string option \<Rightarrow> string option" where
  "orUndefined x = (case x of None \<Rightarrow> None | Some v \<Rightarrow> if v = [] then None else Some v)"

definition extractMethod :: "caps \<Rightarrow> string" where
  "extractMethod c = orElse (map_option toUpperCase (c 1)) ''GET''"

definition extractPath :: "caps \<Rightarrow> string" where
  "extractPath c = orElse (c 2) ''/''"

text \<open>\<open>/(\w+)\s*=>/\<close>, \<open>/function\s+(\w+)/\<close>, \<open>/async\s+(\w+)/\<close> and \<open>/(\w+)\s*\(/\<close>\<close>

definition arrowRe :: re where
  "arrowRe = seqs [Grp 1 (Plus (Cls wordChars)), Star (Cls spaceChars), lit ''=>'']"

definition functionRe :: re where
  "functionRe = seqs [lit ''function'', Plus (Cls spaceChars), Grp 1 (Plus (Cls wordChars))]"

definition asyncRe :: re where
  "asyncRe = seqs [lit ''async'', Plus (Cls spaceChars), Grp 1 (Plus (Cls wordChars))]"

definition methodRe :: re where
  "methodRe = seqs [Grp 1 (Plus (Cls wordChars)), Star (Cls spaceChars), Cls ''('']"

text \<open>\<open>s.match(r)\<close> for a pattern without the \<open>g\<close> flag, as the groups of the first match.\<close>

definition matchRe :: "re \<Rightarrow> string \<Rightarrow> caps option" where
  "matchRe r s = (case search r [] s of None \<Rightarrow> None | Some (_, _, _, c) \<Rightarrow> Some c)"

definition extractHandlerName :: "string \<Rightarrow> string" where
  "extractHandlerName handlerCode =
     (case matchRe arrowRe handlerCode of
        Some arrowMatch \<Rightarrow> orElse (arrowMatch 1) ''anonymous''
      | None \<Rightarrow>
     (case matchRe functionRe handlerCode of
        Some functionMatch \<Rightarrow> orElse (functionMatch 1) ''anonymous''
      | None \<Rightarrow>
     (case matchRe asyncRe handlerCode of
        Some asyncMatch \<Rightarrow> orElse (asyncMatch 1) ''anonymous''
      | None \<Rightarrow> ''anonymous'')))"

text \<open>
  \<open>extractHandler\<close>: \<open>afterDecorator\<close> is the text after the match, the second argument
  here.
\<close>

definition extractHandler :: "caps \<Rightarrow> string \<Rightarrow> string" where
  "extractHandler c afterDecorator =
     (case orUndefined (c 3) of
        Some handlerCode \<Rightarrow> extractHandlerName handlerCode
      | None \<Rightarrow>
          (case matchRe methodRe afterDecorator of
             Some methodMatch \<Rightarrow> orElse (methodMatch 1) ''anonymous''
           | None \<Rightarrow> ''anonymous''))"

definition extractMiddleware :: "string list" where
  "extractMiddleware = []"

definition extractRouteParameters :: "string \<Rightarrow> parameter list" where
  "extractRouteParameters handlerName =
     [\<lparr>param_name = ''req'', param_type = ''Request'', optional = False, decorator = None\<rparr>,
      \<lparr>param_name = ''res'', param_type = ''Response'', optional = False, decorator = None\<rparr>,
      \<lparr>param_name = ''next'', param_type = ''NextFunction'', optional = True, decorator = None\<rparr>]"

definition detectFrameworkFromPattern :: "pattern \<Rightarrow> framework" where
  "detectFrameworkFromPattern p =
     (if includes_str (source p) ''@(Get|Post'' then NestJS
      else if includes_str (source p) ''fastify'' then Fastify
      else if includes_str (source p) ''router'' then Koa
      else Express)"

text \<open>The body of the \<open>while\<close> loop: the route of one match, if \<open>method && path\<close>.\<close>

definition matchRoute :: "pattern \<Rightarrow> string \<times> caps \<Rightarrow> route list" where
  "matchRoute p mt =
     (case mt of (post, c) \<Rightarrow>
        if extractMethod c \<noteq> [] \<and> extractPath c \<noteq> [] then
          [\<lparr>path = extractPath c, route_method = extractMethod c, handler = extractHandler c post,
            middleware = extractMiddleware,
            parameters = extractRouteParameters (extractHandler c post),
            framework = detectFrameworkFromPattern p\<rparr>]
        else [])"

definition patternRoutes :: "pattern \<Rightarrow> string \<Rightarrow> route list option" where
  "patternRoutes p text = map_option (\<lambda>ms. concat (map (matchRoute p) ms)) (execAll (regex p) text)"

text \<open>The loop over the patterns; \<open>None\<close> if one of the inner loops does not end.\<close>

fun scanPatterns :: "pattern list \<Rightarrow> string \<Rightarrow> route list option" where
  "scanPatterns [] text = Some []"
| "scanPatterns (p # ps) text =
     (case patternRoutes p text of
        None \<Rightarrow> None
      | Some rs \<Rightarrow> map_option ((@) rs) (scanPatterns ps text))"

definition extractRoutes :: "string \<Rightarrow> route list option" where
  "extractRoutes text = scanPatterns routePatterns text"

text \<open>
  \<open>ExpressExtractor.extractExpressRoutes\<close>: two patterns, every route pushed, the
  framework fixed.
\<close>

definition extractParameters :: "parameter list" where
  "extractParameters =
     [\<lparr>param_name = ''req'', param_type = ''Request'', optional = False, decorator = None\<rparr>,
      \<lparr>param_name = ''res'', param_type = ''Response'', optional = False, decorator = None\<rparr>,
      \<lparr>param_name = ''next'', param_type = ''NextFunction'', optional = True, decorator = None\<rparr>]"

definition expressRoute :: "string \<times> caps \<Rightarrow> route" where
  "expressRoute mt =
     (case mt of (post, c) \<Rightarrow>
        \<lparr>path = orElse (c 2) ''/'', route_method = orElse (map_option toUpperCase (c 1)) ''GET'',
         handler = extractHandlerName (orElse (c 3) ''anonymous''), middleware = [],
         parameters = extractParameters, framework = Express\<rparr>)"

fun scanExpress :: "re list \<Rightarrow> string \<Rightarrow> route list option" where
  "scanExpress [] text = Some []"
| "scanExpress (r # rs) text =
     (case execAll r text of
        None \<Rightarrow> None
      | Some ms \<Rightarrow> map_option ((@) (map expressRoute ms)) (scanExpress rs text))"

definition extractExpressRoutes :: "string \<Rightarrow> route list option" where
  "extractExpressRoutes text = scanExpress [callRe ''app'', callRe ''router''] text"

section \<open>Declaration extraction\<close>

text \<open>
  The declarations that the extractor reads through the parser's interface: a decorator
  with its name and the source text of its arguments (\<open>getArguments()\<close>, each by
  \<open>getText()\<close>), a parameter, a method and a class.  A source file is given as its path,
  its text and its classes; how the parser gets the classes from the text is outside the
  model.
\<close>

record decorator_decl =
  decorator_name :: string
  arguments :: "string list"

record parameter_decl =
  parameter_name :: string
  typeNode :: "string option"
  questionToken :: bool
  parameter_decorators :: "decorator_decl list"

record method_decl =
  method_decl_name :: string
  method_decorators :: "decorator_decl list"
  method_decl_parameters :: "parameter_decl list"
  returnTypeNode :: "string option"
  modifiers :: "string list"

record class_decl =
  class_name :: "string option"
  class_decorators :: "decorator_decl list"
  class_methods :: "method_decl list"

record source_file =
  filePath :: string
  fullText :: string
  classes :: "class_decl list"

definition isControllerClass :: "class_decl \<Rightarrow> bool" where
  "isControllerClass classDecl =
     (let name = toLowerCase (orElse (class_name classDecl) [])
      in list_ex (\<lambda>d. decorator_name d = ''Controller'') (class_decorators classDecl)
         \<or> includes_str name ''controller'' \<or> suffix ''controller'' name)"

definition isServiceClass :: "class_decl \<Rightarrow> bool" where
  "isServiceClass classDecl =
     (let name = toLowerCase (orElse (class_name classDecl) [])
      in list_ex (\<lambda>d. decorator_name d = ''Injectable'') (class_decorators classDecl)
         \<or> includes_str name ''service'' \<or> suffix ''service'' name)"

definition routeDecorators :: "string list" where
  "routeDecorators = [''Get'', ''Post'', ''Put'', ''Delete'', ''Patch'', ''All'']"

definition isRouteMethod :: "method_decl \<Rightarrow> bool" where
  "isRouteMethod methodDecl =
     list_ex (\<lambda>d. decorator_name d \<in> set routeDecorators) (method_decorators methodDecl)"

text \<open>\<open>text.replace(/['"]/g, '')\<close> and \<open>routePath.replace(/^\//, '')\<close>\<close>

definition stripQuotes :: "string \<Rightarrow> string" where
  "stripQuotes t = filter (\<lambda>ch. ch \<noteq> CHR 0x27 \<and> ch \<noteq> CHR 0x22) t"

definition stripLeadingSlash :: "string \<Rightarrow> string" where
  "stripLeadingSlash p = (case p of [] \<Rightarrow> [] | ch # rest \<Rightarrow> if ch = CHR ''/'' then rest else p)"

definition getParameterDecorator :: "parameter_decl \<Rightarrow> string option" where
  "getParameterDecorator param =
     (case parameter_decorators param of [] \<Rightarrow> None | d # _ \<Rightarrow> Some (decorator_name d))"

definition routePathOf :: "decorator_decl \<Rightarrow> string" where
  "routePathOf routeDecorator =
     (case arguments routeDecorator of
        [] \<Rightarrow> ''/''
      | a # _ \<Rightarrow> orElse (Some (stripQuotes a)) ''/'')"

definition basePathOf :: "class_decl \<Rightarrow> string" where
  "basePathOf classDecl =
     (case find (\<lambda>d. decorator_name d = ''Controller'') (class_decorators classDecl) of
        None \<Rightarrow> []
      | Some controllerDecorator \<Rightarrow>
          (case arguments controllerDecorator of
             [] \<Rightarrow> []
           | a # _ \<Rightarrow> orElse (Some (stripQuotes a)) []))"

definition extractRouteFromMethod :: "method_decl \<Rightarrow> class_decl \<Rightarrow> route option" where
  "extractRouteFromMethod methodDecl classDecl =
     (case find (\<lambda>d. decorator_name d \<in> set routeDecorators) (method_decorators methodDecl) of
        None \<Rightarrow> None
      | Some routeDecorator \<Rightarrow>
          (let methodName = toUpperCase (decorator_name routeDecorator);
               routePath = routePathOf routeDecorator;
               basePath = basePathOf classDecl;
               fullPath =
                 (if basePath \<noteq> [] then
                    ''/'' @ basePath @
                      (if routePath = ''/'' then [] else ''/'' @ stripLeadingSlash routePath)
                  else routePath)
           in Some \<lparr>path = fullPath, route_method = methodName, handler = method_decl_name methodDecl,
                 middleware = [],
                 parameters = map (\<lambda>param.
                     \<lparr>param_name = parameter_name param,
                      param_type = orElse (typeNode param) ''any'',
                      optional = questionToken param,
                      decorator = orUndefined (getParameterDecorator param)\<rparr>)
                   (method_decl_parameters methodDecl),
                 framework = NestJS\<rparr>))"

definition detectFrameworkFromClass :: "class_decl \<Rightarrow> framework" where
  "detectFrameworkFromClass classDecl =
     (if list_ex (\<lambda>d. decorator_name d \<in> set [''Controller'', ''Injectable'']) (class_decorators classDecl)
      then NestJS else Express)"

text \<open>The routes of one class: the inner loop of \<open>extractControllers\<close>.\<close>

definition classRoutes :: "class_decl \<Rightarrow> route list" where
  "classRoutes classDecl =
     concat (map (\<lambda>methodDecl.
         if isRouteMethod methodDecl then
           (case extractRouteFromMethod methodDecl classDecl of None \<Rightarrow> [] | Some r \<Rightarrow> [r])
         else [])
       (class_methods classDecl))"

definition extractControllers :: "source_file \<Rightarrow> controller list" where
  "extractControllers sourceFile =
     concat (map (\<lambda>classDecl.
         if isControllerClass classDecl \<and> length (classRoutes classDecl) > 0 then
           [\<lparr>controller_name = orElse (class_name classDecl) ''AnonymousController'',
             routes = classRoutes classDecl,
             controller_framework = detectFrameworkFromClass classDecl,
             controller_filePath = filePath sourceFile\<rparr>]
         else [])
       (classes sourceFile))"

definition extractServices :: "source_file \<Rightarrow> service list" where
  "extractServices sourceFile =
     concat (map (\<lambda>classDecl.
         if isServiceClass classDecl then
           [\<lparr>service_name = orElse (class_name classDecl) ''AnonymousService'',
             methods = map (\<lambda>methodDecl.
                 \<lparr>method_name = method_decl_name methodDecl,
                  method_parameters = map (\<lambda>param.
                      \<lparr>param_name = parameter_name param,
                       param_type = orElse (typeNode param) ''any'',
                       optional = questionToken param,
                       decorator = None\<rparr>)
                    (method_decl_parameters methodDecl),
                  returnType = orElse (returnTypeNode methodDecl) ''void'',
                  isPublic = (''private'' \<notin> set (modifiers methodDecl)
                     \<and> ''protected'' \<notin> set (modifiers methodDecl))\<rparr>)
               (class_methods classDecl),
             service_filePath = filePath sourceFile,
             service_framework = detectFrameworkFromClass classDecl\<rparr>]
         else [])
       (classes sourceFile))"

definition shouldSkipFile :: "source_file \<Rightarrow> bool" where
  "shouldSkipFile sourceFile =
     (includes_str (filePath sourceFile) ''node_modules''
      \<or> includes_str (filePath sourceFile) ''.spec.''
      \<or> includes_str (filePath sourceFile) ''.test.'')"

text \<open>
  \<open>extractAll\<close> with its three accumulators for routes, controllers and services (the
  fourth, for the types, takes no part in any route and is left out).
\<close>

record extraction =
  all_routes :: "route list"
  all_controllers :: "controller list"
  all_services :: "service list"

fun extractFiles :: "extraction \<Rightarrow> source_file list \<Rightarrow> extraction option" where
  "extractFiles acc [] = Some acc"
| "extractFiles acc (sourceFile # sourceFiles) =
     (if shouldSkipFile sourceFile then extractFiles acc sourceFiles
      else
        (let fileControllers = extractControllers sourceFile in
         case extractRoutes (fullText sourceFile) of
           None \<Rightarrow> None
         | Some patternRs \<Rightarrow>
             extractFiles
               \<lparr>all_routes = all_routes acc @ concat (map routes fileControllers) @ patternRs,
                all_controllers = all_controllers acc @ fileControllers,
                all_services = all_services acc @ extractServices sourceFile\<rparr>
               sourceFiles))"

definition extractAll :: "source_file list \<Rightarrow> extraction option" where
  "extractAll sourceFiles =
     extractFiles \<lparr>all_routes = [], all_controllers = [], all_services = []\<rparr> sourceFiles"

section \<open>Notions of the specification\<close>

text \<open>
  The fixed three-parameter shape, the five HTTP methods of a route, the routes that the
  controllers own under a module name, the joining of a module's routes with further ones,
  and the name that one handler pattern resolves.
\<close>

definition threeParameters :: "parameter list" where
  "threeParameters =
     [\<lparr>param_name = ''req'', param_type = ''Request'', optional = False, decorator = None\<rparr>,
      \<lparr>param_name = ''res'', param_type = ''Response'', optional = False, decorator = None\<rparr>,
      \<lparr>param_name = ''next'', param_type = ''NextFunction'', optional = True, decorator = None\<rparr>]"

definition httpVerbs :: "string list" where
  "httpVerbs = [''GET'', ''POST'', ''PUT'', ''DELETE'', ''PATCH'']"

definition ownedRoutes :: "controller list \<Rightarrow> string \<Rightarrow> route list" where
  "ownedRoutes controllers k =
     concat (map routes (filter (\<lambda>c. controller_name c \<noteq> []
        \<and> extractModuleFromName (controller_name c) = Some k) controllers))"

definition joinRoutes :: "route list option \<Rightarrow> route list \<Rightarrow> route list option" where
  "joinRoutes old new = (case old of None \<Rightarrow> if new = [] then None else Some new | Some rs \<Rightarrow> Some (rs @ new))"


section \<open>Sample inputs\<close>

text \<open>
  Small declarations, files, routes, controllers and services on which the functions are
  run.  \<open>quoted t\<close> is the source text of the string literal \<open>'t'\<close>.
\<close>

definition quoted :: "string \<Rightarrow> string" where
  "quoted t = [CHR 0x27] @ t @ [CHR 0x27]"

definition annotatedMethod :: "string \<Rightarrow> string list \<Rightarrow> method_decl" where
  "annotatedMethod verb args =
     \<lparr>method_decl_name = ''handle'',
      method_decorators = [\<lparr>decorator_name = verb, arguments = args\<rparr>],
      method_decl_parameters = [], returnTypeNode = None, modifiers = []\<rparr>"

definition controllerClass :: "string list \<Rightarrow> method_decl list \<Rightarrow> class_decl" where
  "controllerClass args ms =
     \<lparr>class_name = Some ''UsersController'',
      class_decorators = [\<lparr>decorator_name = ''Controller'', arguments = args\<rparr>],
      class_methods = ms\<rparr>"

definition usersController :: class_decl where
  "usersController =
     \<lparr>class_name = Some ''UsersController'',
      class_decorators = [\<lparr>decorator_name = ''Controller'', arguments = [quoted ''users'']\<rparr>],
      class_methods =
        [\<lparr>method_decl_name = ''list'',
          method_decorators = [\<lparr>decorator_name = ''Get'', arguments = [quoted ''/'']\<rparr>],
          method_decl_parameters = [], returnTypeNode = None, modifiers = []\<rparr>]\<rparr>"

definition bothFile :: source_file where
  "bothFile =
     \<lparr>filePath = ''src/users.controller.ts'',
      fullText = ''app.get('/users', listUsers); @Controller('users') class UsersController { @Get('/') list() {} }'',
      classes = [usersController]\<rparr>"



definition allFile :: source_file where
  "allFile =
     \<lparr>filePath = ''src/users.controller.ts'',
      fullText = ''@Controller('users') class UsersController { @All() handle() {} }'',
      classes = [controllerClass [quoted ''users''] [annotatedMethod ''All'' []]]\<rparr>"

definition routerText :: string where
  "routerText = ''router.get('/users', listUsers)''"


definition arrowCallText :: string where
  "arrowCallText = ''app.get('/users', const getUsers = (req,res) => {})''"

definition sampleRoute :: "string \<Rightarrow> string \<Rightarrow> route" where
  "sampleRoute p h =
     \<lparr>path = p, route_method = ''GET'', handler = h, middleware = [], parameters = [],
      framework = Express\<rparr>"

definition sampleController :: "string \<Rightarrow> route list \<Rightarrow> controller" where
  "sampleController n rs =
     \<lparr>controller_name = n, routes = rs, controller_framework = NestJS,
      controller_filePath = ''src/app.ts''\<rparr>"

definition sampleService :: "string \<Rightarrow> service" where
  "sampleService n =
     \<lparr>service_name = n, methods = [], service_filePath = ''src/app.ts'',
      service_framework = NestJS\<rparr>"


section \<open>Case folding and the suffix pattern\<close>

lemma caseTable_distinct:
  "distinct (map fst caseTable)" "distinct (map snd caseTable)"
  "set (map fst caseTable) \<inter> set (map snd caseTable) = {}"
  by code_simp+

lemma map_of_caseTable: "map_of caseTable x = Some l \<longleftrightarrow> (x, l) \<in> set caseTable"
  using caseTable_distinct(1) by simp

lemma map_of_swap:
  "map_of (map (\<lambda>(u, l). (l, u)) caseTable) x = Some u \<longleftrightarrow> (u, x) \<in> set caseTable"
proof -
  have "distinct (map fst (map (\<lambda>(u, l). (l, u)) caseTable))"
    using caseTable_distinct(2) by (simp add: comp_def case_prod_beta)
  then show ?thesis by (auto simp: map_of_eq_Some_iff)
qed

lemma in_fstI: "(a, b) \<in> S \<Longrightarrow> a \<in> fst ` S" and in_sndI: "(a, b) \<in> S \<Longrightarrow> b \<in> snd ` S"
  by force+

lemma toLowerChar_cases:
  "toLowerChar x = y \<longleftrightarrow> (x, y) \<in> set caseTable \<or> (x \<notin> fst ` set caseTable \<and> y = x)"
proof (cases "map_of caseTable x")
  case None
  then have nin: "x \<notin> fst ` set caseTable" by (simp add: map_of_eq_None_iff)
  have "toLowerChar x = x" by (simp add: toLowerChar_def None)
  then show ?thesis using nin in_fstI[of x y "set caseTable"] by metis
next
  case (Some l)
  then have mem: "(x, l) \<in> set caseTable" by (simp only: map_of_caseTable)
  have uniq: "(x, y) \<in> set caseTable \<Longrightarrow> y = l"
  proof -
    assume "(x, y) \<in> set caseTable"
    then have "map_of caseTable x = Some y" by (simp only: map_of_caseTable)
    with Some show "y = l" by simp
  qed
  have "toLowerChar x = l" by (simp add: toLowerChar_def Some)
  then show ?thesis using mem uniq in_fstI[OF mem] by metis
qed

lemma toUpperChar_cases:
  "toUpperChar x = y \<longleftrightarrow> (y, x) \<in> set caseTable \<or> (x \<notin> snd ` set caseTable \<and> y = x)"
proof (cases "map_of (map (\<lambda>(u, l). (l, u)) caseTable) x")
  case None
  have eq: "fst ` set (map (\<lambda>(u, l). (l, u)) caseTable) = snd ` set caseTable" by force
  from None have "x \<notin> fst ` set (map (\<lambda>(u, l). (l, u)) caseTable)"
    using map_of_eq_None_iff by metis
  then have nin: "x \<notin> snd ` set caseTable" by (metis eq)
  have "toUpperChar x = x" by (simp add: toUpperChar_def None)
  then show ?thesis using nin in_sndI[of y x "set caseTable"] by metis
next
  case (Some u)
  then have mem: "(u, x) \<in> set caseTable" by (simp only: map_of_swap)
  have uniq: "(y, x) \<in> set caseTable \<Longrightarrow> y = u"
  proof -
    assume "(y, x) \<in> set caseTable"
    then have "map_of (map (\<lambda>(u, l). (l, u)) caseTable) x = Some y" by (simp only: map_of_swap)
    with Some show "y = u" by simp
  qed
  have "toUpperChar x = u" by (simp add: toUpperChar_def Some)
  then show ?thesis using mem uniq in_sndI[OF mem] by metis
qed

lemma caseTable_inj:
  "(u, l) \<in> set caseTable \<Longrightarrow> (u', l) \<in> set caseTable \<Longrightarrow> u' = u"
  "(u, l) \<in> set caseTable \<Longrightarrow> (u, l') \<in> set caseTable \<Longrightarrow> l' = l"
  "(u, l) \<in> set caseTable \<Longrightarrow> (l, l') \<in> set caseTable \<Longrightarrow> False"
  "(u, l) \<in> set caseTable \<Longrightarrow> (u', u) \<in> set caseTable \<Longrightarrow> False"
proof -
  show "(u, l) \<in> set caseTable \<Longrightarrow> (u', l) \<in> set caseTable \<Longrightarrow> u' = u"
    by (simp only: map_of_swap[symmetric]) simp
  show "(u, l) \<in> set caseTable \<Longrightarrow> (u, l') \<in> set caseTable \<Longrightarrow> l' = l"
    by (simp only: map_of_caseTable[symmetric]) simp
  have "\<And>a b. (a, b) \<in> set caseTable \<Longrightarrow> a \<in> set (map fst caseTable) \<and> b \<in> set (map snd caseTable)"
    by force
  then show "(u, l) \<in> set caseTable \<Longrightarrow> (l, l') \<in> set caseTable \<Longrightarrow> False"
    and "(u, l) \<in> set caseTable \<Longrightarrow> (u', u) \<in> set caseTable \<Longrightarrow> False"
    using caseTable_distinct(3) by blast+
qed

lemma variants_iff:
  "x \<in> set [toLowerChar ch, toUpperChar ch] \<longleftrightarrow> toLowerChar x = toLowerChar ch"
proof -
  consider (U) l where "(ch, l) \<in> set caseTable" | (L) u where "(u, ch) \<in> set caseTable"
    | (N) "ch \<notin> fst ` set caseTable" "ch \<notin> snd ` set caseTable" by force
  then show ?thesis
  proof cases
    case U
    have lc: "toLowerChar ch = l" using U by (simp add: toLowerChar_cases)
    have "ch \<notin> snd ` set caseTable" using U caseTable_inj(4) by force
    then have uc: "toUpperChar ch = ch" by (simp add: toUpperChar_cases)
    have "l \<notin> fst ` set caseTable" using U caseTable_inj(3) by force
    then have "toLowerChar l = l" by (simp add: toLowerChar_cases)
    moreover have "toLowerChar x = l \<Longrightarrow> x = l \<or> x = ch"
      using U caseTable_inj(1) by (auto simp: toLowerChar_cases)
    ultimately show ?thesis using lc uc by auto
  next
    case L
    have "ch \<notin> fst ` set caseTable" using L caseTable_inj(3) by force
    then have lc: "toLowerChar ch = ch" by (simp add: toLowerChar_cases)
    have uc: "toUpperChar ch = u" using L by (simp add: toUpperChar_cases)
    have "toLowerChar u = ch" using L by (simp add: toLowerChar_cases)
    moreover have "toLowerChar x = ch \<Longrightarrow> x = ch \<or> x = u"
      using L caseTable_inj(1) by (auto simp: toLowerChar_cases)
    ultimately show ?thesis using lc uc by auto
  next
    case N
    have lc: "toLowerChar ch = ch" using N by (simp add: toLowerChar_cases)
    have uc: "toUpperChar ch = ch" using N by (simp add: toUpperChar_cases)
    have "\<And>y. (y, ch) \<in> set caseTable \<Longrightarrow> ch \<in> snd ` set caseTable" by force
    then have "toLowerChar x = ch \<Longrightarrow> x = ch"
      using N(2) unfolding toLowerChar_cases by blast
    then show ?thesis using lc uc by auto
  qed
qed

lemma m_liti:
  "m (liti w) s c =
     (if length w \<le> length s \<and> toLowerCase (take (length w) s) = toLowerCase w
      then [(drop (length w) s, c)] else [])"
proof (induction w arbitrary: s)
  case Nil
  then show ?case by (simp add: liti_def seqs_def toLowerCase_def)
next
  case (Cons a w)
  have step: "liti (a # w) = Seq (Cls [toLowerChar a, toUpperChar a]) (liti w)"
    by (simp add: liti_def seqs_def)
  show ?case
  proof (cases s)
    case Nil
    then show ?thesis by (simp add: step)
  next
    case (Cons x xs)
    have "m (liti (a # w)) (x # xs) c =
            (if toLowerChar x = toLowerChar a then m (liti w) xs c else [])"
      unfolding step using variants_iff[of x a] by (simp del: set_simps)
    then show ?thesis
      unfolding Cons using Cons.IH[of xs] by (simp add: toLowerCase_def)
  qed
qed

lemma alts_Cons: "alts (r # rs) = (if rs = [] then r else Alt r (alts rs))"
  by (simp add: alts_def)

lemma m_alts: "rs \<noteq> [] \<Longrightarrow> m (alts rs) s c = concat (map (\<lambda>r. m r s c) rs)"
  by (induction rs) (auto simp: alts_Cons)

lemma nameSuffixes_antichain:
  "\<forall>w \<in> set nameSuffixes. \<forall>w' \<in> set nameSuffixes. suffix w' w \<longrightarrow> w' = w"
  by code_simp

lemma suffixRe_words:
  "suffixRe = Seq (Grp 1 (alts (map liti [''Service'', ''Controller'', ''Dto'', ''Entity'',
     ''Model'', ''Type'', ''Interface'']))) Eol"
  "map toLowerCase [''Service'', ''Controller'', ''Dto'', ''Entity'', ''Model'', ''Type'',
     ''Interface''] = nameSuffixes"
  by (simp add: suffixRe_def, code_simp)

lemma liti_full:
  "length w \<le> length s \<and> toLowerCase (take (length w) s) = toLowerCase w \<and> drop (length w) s = []
     \<longleftrightarrow> toLowerCase s = toLowerCase w"
proof
  assume "length w \<le> length s \<and> toLowerCase (take (length w) s) = toLowerCase w \<and> drop (length w) s = []"
  then show "toLowerCase s = toLowerCase w" by auto
next
  assume eq: "toLowerCase s = toLowerCase w"
  then have "length s = length w"
    unfolding toLowerCase_def by (rule map_eq_imp_length_eq)
  then show "length w \<le> length s \<and> toLowerCase (take (length w) s) = toLowerCase w \<and> drop (length w) s = []"
    using eq by simp
qed

lemma set_m_litis_Eol:
  assumes "ws \<noteq> []"
  shows "set (m (Seq (Grp n (alts (map liti ws))) Eol) s c) =
           (if toLowerCase s \<in> toLowerCase ` set ws then {([], c(n \<mapsto> s))} else {})"
proof -
  have ne: "map liti ws \<noteq> []" using assms by simp
  have "set (m (Seq (Grp n (alts (map liti ws))) Eol) s c) =
          (\<Union>w \<in> set ws. if length w \<le> length s \<and> toLowerCase (take (length w) s) = toLowerCase w \<and> drop (length w) s = []
                          then {([], c(n \<mapsto> s))} else {})"
    by (auto simp add: m_alts[OF ne] m_liti split: if_splits)
  then show ?thesis unfolding liti_full by auto
qed

lemma set_m_suffixRe:
  "set (m suffixRe s c) = (if toLowerCase s \<in> set nameSuffixes then {([], c(1 \<mapsto> s))} else {})"
proof -
  have "set nameSuffixes = toLowerCase ` set [''Service'', ''Controller'', ''Dto'', ''Entity'',
     ''Model'', ''Type'', ''Interface'']"
    unfolding suffixRe_words(2)[symmetric] by (rule set_map)
  then show ?thesis
    unfolding suffixRe_words(1) by (subst set_m_litis_Eol) simp_all
qed

lemma m_suffixRe_Nil: "m suffixRe s c = [] \<longleftrightarrow> toLowerCase s \<notin> set nameSuffixes"
  using set_m_suffixRe[of s c] by (metis empty_iff insert_not_empty set_empty)

lemma m_suffixRe_Cons: "m suffixRe s c = (s', c') # rest \<Longrightarrow> s' = []"
  using set_m_suffixRe[of s c] by (metis list.set_intros(1) empty_iff singletonD prod.inject)

lemma stripSuffix_spec_Nil: "stripSuffix_spec [] = []"
  by (simp add: stripSuffix_spec_def split: option.splits)

lemma stripSuffix_spec_Cons:
  "stripSuffix_spec (x # xs) =
     (if toLowerCase (x # xs) \<in> set nameSuffixes then [] else x # stripSuffix_spec xs)"
proof (cases "toLowerCase (x # xs) \<in> set nameSuffixes")
  case True
  obtain w where w: "find (\<lambda>w. suffix w (toLowerCase (x # xs))) nameSuffixes = Some w"
    using True by (cases "find (\<lambda>w. suffix w (toLowerCase (x # xs))) nameSuffixes")
      (auto simp: find_None_iff)
  then have "w \<in> set nameSuffixes" "suffix w (toLowerCase (x # xs))"
    by (auto simp: find_Some_iff)
  then have "w = toLowerCase (x # xs)" using True nameSuffixes_antichain by blast
  then have "length w = length (x # xs)" by (simp add: toLowerCase_def)
  then show ?thesis using True w by (simp add: stripSuffix_spec_def)
next
  case False
  have "suffix w (toLowerCase (x # xs)) \<longleftrightarrow> suffix w (toLowerCase xs)"
    if "w \<in> set nameSuffixes" for w
    using that False by (auto simp: toLowerCase_def suffix_Cons)
  then have eq: "find (\<lambda>w. suffix w (toLowerCase (x # xs))) nameSuffixes
      = find (\<lambda>w. suffix w (toLowerCase xs)) nameSuffixes"
    by (intro find_cong) auto
  show ?thesis
  proof (cases "find (\<lambda>w. suffix w (toLowerCase xs)) nameSuffixes")
    case None
    then show ?thesis using False eq by (simp add: stripSuffix_spec_def)
  next
    case (Some w)
    then have "suffix w (toLowerCase xs)" by (auto simp: find_Some_iff)
    then have "length w \<le> length xs"
      using suffix_length_le by (fastforce simp: toLowerCase_def)
    then show ?thesis using False eq Some by (simp add: stripSuffix_spec_def Suc_diff_le)
  qed
qed

lemma replace_suffixRe_aux:
  "(case search suffixRe pre s of None \<Rightarrow> pre @ s | Some (p, _, post, _) \<Rightarrow> p @ post)
     = pre @ stripSuffix_spec s"
proof (induction s arbitrary: pre)
  case Nil
  have "toLowerCase [] \<notin> set nameSuffixes" by code_simp
  then have "m suffixRe [] Map.empty = []" using m_suffixRe_Nil by blast
  then show ?case by (simp add: stripSuffix_spec_Nil)
next
  case (Cons x xs)
  show ?case
  proof (cases "m suffixRe (x # xs) Map.empty")
    case Nil
    then have "toLowerCase (x # xs) \<notin> set nameSuffixes" using m_suffixRe_Nil by blast
    then show ?thesis using Nil Cons.IH[of "pre @ [x]"]
      by (auto simp add: stripSuffix_spec_Cons split: option.splits)
  next
    case (Cons a rest)
    obtain s' c' where a: "a = (s', c')" by (cases a)
    have "s' = []" using Cons m_suffixRe_Cons unfolding a by blast
    moreover have "toLowerCase (x # xs) \<in> set nameSuffixes"
      using Cons m_suffixRe_Nil[of "x # xs" Map.empty] by auto
    ultimately show ?thesis using Cons a by (simp add: stripSuffix_spec_Cons)
  qed
qed

lemma replaceFirst_suffixRe: "replaceFirst suffixRe name = stripSuffix_spec name"
  using replace_suffixRe_aux[of "[]" name]
  by (simp add: replaceFirst_def split: option.splits prod.splits)

lemma suffix_single: "suffix [a] w \<longleftrightarrow> w \<noteq> [] \<and> last w = a"
  by (cases w rule: rev_cases) (auto simp: suffix_def)

lemma extractModuleFromName_refines: "extractModuleFromName name = deriveModuleName_spec name"
  by (simp add: extractModuleFromName_def deriveModuleName_spec_def pluralize_spec_def
      replaceFirst_suffixRe suffix_single Let_def)

text \<open>
  C4.  For every name the module-name derivation of the source, which runs the suffix
  pattern and pluralizes, gives what the naming rule of the specification gives: one of the
  seven suffixes is stripped from the end without regard to case, the rest is lower-cased,
  a trailing \<open>y\<close> becomes \<open>ies\<close>, a trailing \<open>s\<close> is kept and otherwise \<open>s\<close> is appended.
  \<open>UsersService\<close> gives \<open>users\<close>, \<open>CompanyService\<close> gives \<open>companies\<close>,
  \<open>OrderController\<close> gives \<open>orders\<close>, and the empty name gives no candidate.
\<close>

theorem module_name_derivation:
  "extractModuleFromName name = deriveModuleName_spec name
   \<and> extractModuleFromName ''UsersService'' = Some ''users''
   \<and> extractModuleFromName ''CompanyService'' = Some ''companies''
   \<and> extractModuleFromName ''OrderController'' = Some ''orders''
   \<and> extractModuleFromName [] = None"
proof -
  have "extractModuleFromName ''UsersService'' = Some ''users''" by code_simp
  moreover have "extractModuleFromName ''CompanyService'' = Some ''companies''" by code_simp
  moreover have "extractModuleFromName ''OrderController'' = Some ''orders''" by code_simp
  moreover have "extractModuleFromName [] = None" by (simp add: extractModuleFromName_def)
  ultimately show ?thesis using extractModuleFromName_refines by blast
qed

section \<open>The matcher\<close>

lemma m_Seq_mem:
  "(s', c') \<in> set (m (Seq r1 r2) s c) \<longleftrightarrow>
     (\<exists>s1 c1. (s1, c1) \<in> set (m r1 s c) \<and> (s', c') \<in> set (m r2 s1 c1))"
  by auto

lemma m_Star_mem:
  "(s', c') \<in> set (m (Star r) s c) \<longleftrightarrow>
     (s', c') = (s, c) \<or>
     (\<exists>s1 c1. (s1, c1) \<in> set (m r s c) \<and> length s1 < length s \<and> (s', c') \<in> set (m (Star r) s1 c1))"
  by (subst m.simps(7)) (auto split: if_splits)

lemma m_Grp_mem:
  "(s', c') \<in> set (m (Grp n r) s c) \<longleftrightarrow>
     (\<exists>c1. (s', c1) \<in> set (m r s c) \<and> c' = c1(n \<mapsto> take (length s - length s') s))"
  by auto

lemma m_suffix: "(s', c') \<in> set (m r s c) \<Longrightarrow> suffix s' s"
proof (induction r arbitrary: s c s' c')
  case (Seq r1 r2)
  then show ?case unfolding m_Seq_mem by (blast intro: suffix_order.trans)
next
  case (Star r)
  from Star.prems show ?case
  proof (induction "length s" arbitrary: s c rule: less_induct)
    case less
    from less.prems consider "(s', c') = (s, c)"
      | s1 c1 where "(s1, c1) \<in> set (m r s c)" "length s1 < length s" "(s', c') \<in> set (m (Star r) s1 c1)"
      unfolding m_Star_mem[of s' c' r s c] by blast
    then show ?case
    proof cases
      case 1
      then show ?thesis by simp
    next
      case 2
      then show ?thesis using less.hyps[OF 2(2) 2(3)] Star.IH[OF 2(1)] by (blast intro: suffix_order.trans)
    qed
  qed
next
  case (Grp n r)
  then show ?case unfolding m_Grp_mem by blast
qed (auto split: list.splits if_splits simp: suffix_Cons)

lemma m_length: "(s', c') \<in> set (m r s c) \<Longrightarrow> length s' \<le> length s"
  using m_suffix suffix_length_le by blast

lemma m_consuming: "consuming r \<Longrightarrow> (s', c') \<in> set (m r s c) \<Longrightarrow> length s' < length s"
proof (induction r arbitrary: s c s' c')
  case (Seq r1 r2)
  from Seq.prems(2) obtain s1 c1 where
    a: "(s1, c1) \<in> set (m r1 s c)" and b: "(s', c') \<in> set (m r2 s1 c1)"
    unfolding m_Seq_mem by blast
  show ?case
  proof (cases "consuming r1")
    case True
    then show ?thesis using Seq.IH(1)[OF True a] m_length[OF b] by simp
  next
    case False
    then have "consuming r2" using Seq.prems(1) by simp
    then show ?thesis using Seq.IH(2)[OF _ b] m_length[OF a] by simp
  qed
next
  case (Grp n r)
  then show ?case unfolding m_Grp_mem by auto
qed (auto split: list.splits if_splits)

lemma search_post:
  "search r pre s = Some (p, ms, post, c) \<Longrightarrow> (post, c) \<in> set (m r ms Map.empty) \<and> suffix ms s"
  by (induction s arbitrary: pre) (auto split: list.splits simp: suffix_Cons)

lemma search_shorter:
  "consuming r \<Longrightarrow> search r pre s = Some (p, ms, post, c) \<Longrightarrow> length post < length s"
  using search_post[of r pre s p ms post c] m_consuming[of r post c ms Map.empty]
    suffix_length_le[of ms s] by auto

lemma execAll_total: "consuming r \<Longrightarrow> \<exists>ms. execAll r s = Some ms"
proof (induction "length s" arbitrary: s rule: less_induct)
  case less
  show ?case
  proof (cases "search r [] s")
    case None
    then show ?thesis by (simp add: execAll.simps)
  next
    case (Some a)
    obtain p ms post c where a: "a = (p, ms, post, c)" by (cases a)
    have lt: "length post < length s" using search_shorter[OF less(2)] Some a by blast
    obtain rest where "execAll r post = Some rest" using less(1)[OF lt less(2)] by auto
    then show ?thesis using Some a lt by (simp add: execAll.simps[of r s])
  qed
qed

lemma execAll_mem:
  "execAll r s = Some ms \<Longrightarrow> (post, c) \<in> set ms \<Longrightarrow> \<exists>t. (post, c) \<in> set (m r t Map.empty)"
proof (induction "length s" arbitrary: s ms rule: less_induct)
  case less
  show ?case
  proof (cases "search r [] s")
    case None
    then show ?thesis using less(2,3) by (simp add: execAll.simps[of r s])
  next
    case (Some a)
    obtain p t post' c' where a: "a = (p, t, post', c')" by (cases a)
    show ?thesis
    proof (cases "length post' < length s")
      case True
      then obtain rest where rest: "execAll r post' = Some rest" "ms = (post', c') # rest"
        using less(2) Some a by (auto simp add: execAll.simps[of r s])
      show ?thesis
      proof (cases "(post, c) = (post', c')")
        case True
        then show ?thesis using search_post[of r "[]" s p t post' c'] Some a by auto
      next
        case False
        then have "(post, c) \<in> set rest" using less(3) rest by auto
        then show ?thesis using less(1)[OF True rest(1)] by auto
      qed
    next
      case False
      then show ?thesis using less(2) Some a by (simp add: execAll.simps[of r s])
    qed
  qed
qed

lemma m_frame: "(s', c') \<in> set (m r s c) \<Longrightarrow> n \<notin> set (groups r) \<Longrightarrow> c' n = c n"
proof (induction r arbitrary: s c s' c')
  case (Seq r1 r2)
  from Seq.prems(1) obtain s1 c1 where
    a: "(s1, c1) \<in> set (m r1 s c)" and b: "(s', c') \<in> set (m r2 s1 c1)"
    unfolding m_Seq_mem by blast
  show ?case using Seq.IH(1)[OF a] Seq.IH(2)[OF b] Seq.prems(2) by simp
next
  case (Star r)
  from Star.prems show ?case
  proof (induction "length s" arbitrary: s c rule: less_induct)
    case less
    from less.prems(1) consider "(s', c') = (s, c)"
      | s1 c1 where "(s1, c1) \<in> set (m r s c)" "length s1 < length s" "(s', c') \<in> set (m (Star r) s1 c1)"
      unfolding m_Star_mem[of s' c' r s c] by blast
    then show ?case
    proof cases
      case 1
      then show ?thesis by simp
    next
      case 2
      then show ?thesis using less.hyps[OF 2(2) 2(3)] Star.IH[OF 2(1)] less.prems(2) by simp
    qed
  qed
next
  case (Grp k r)
  then show ?case unfolding m_Grp_mem by auto
qed (auto split: list.splits if_splits)

lemma lit_Cons: "lit (a # w) = Seq (Cls [a]) (lit w)" and lit_Nil: "lit [] = Eps"
  by (simp_all add: lit_def seqs_def)

lemma m_lit: "(s', c') \<in> set (m (lit w) s c) \<longleftrightarrow> s = w @ s' \<and> c' = c"
proof (induction w arbitrary: s)
  case Nil
  then show ?case by (auto simp: lit_Nil)
next
  case (Cons a w)
  show ?case unfolding lit_Cons m_Seq_mem using Cons.IH by (cases s) auto
qed

lemma m_alts_lit:
  assumes "ws \<noteq> []"
  shows "(s', c') \<in> set (m (alts (map lit ws)) s c) \<longleftrightarrow> (\<exists>w \<in> set ws. s = w @ s') \<and> c' = c"
proof -
  have "map lit ws \<noteq> []" using assms by simp
  then show ?thesis by (auto simp: m_alts m_lit)
qed

lemma m_Grp_alts_lit:
  assumes "ws \<noteq> []" and "(s', c') \<in> set (m (Grp n (alts (map lit ws))) s c)"
  shows "\<exists>w \<in> set ws. s = w @ s' \<and> c' = c(n \<mapsto> w)"
  using assms(2) unfolding m_Grp_mem m_alts_lit[OF assms(1)] by auto




section \<open>The pattern scan\<close>

lemma consuming_patterns:
  "consuming (callRe recv)" "consuming nestRe"
  by (simp_all add: callRe_def nestRe_def seqs_def)

lemma routePatterns_consuming: "p \<in> set routePatterns \<Longrightarrow> consuming (regex p)"
  by (auto simp: routePatterns_def callPattern_def nestPattern_def consuming_patterns)

lemma patternRoutes_total: "consuming (regex p) \<Longrightarrow> \<exists>rs. patternRoutes p text = Some rs"
  using execAll_total[of "regex p" "text"] by (auto simp: patternRoutes_def)

lemma scanPatterns_total:
  "(\<And>p. p \<in> set ps \<Longrightarrow> consuming (regex p)) \<Longrightarrow> \<exists>rs. scanPatterns ps text = Some rs"
proof (induction ps)
  case Nil
  then show ?case by simp
next
  case (Cons p ps)
  obtain a where a: "patternRoutes p text = Some a"
    using patternRoutes_total[of p "text"] Cons.prems by auto
  obtain b where "scanPatterns ps text = Some b" using Cons by auto
  then show ?case using a by simp
qed

lemma scanPatterns_mem:
  "scanPatterns ps text = Some rs \<Longrightarrow> r \<in> set rs \<Longrightarrow>
     \<exists>p \<in> set ps. \<exists>ms. execAll (regex p) text = Some ms \<and> (\<exists>mt \<in> set ms. r \<in> set (matchRoute p mt))"
proof (induction ps arbitrary: rs)
  case Nil
  then show ?case by simp
next
  case (Cons p ps)
  from Cons.prems(1) obtain a b where a: "patternRoutes p text = Some a"
    and b: "scanPatterns ps text = Some b" and rs: "rs = a @ b"
    by (auto split: option.splits)
  from Cons.prems(2) rs consider "r \<in> set a" | "r \<in> set b" by auto
  then show ?case
  proof cases
    case 1
    then show ?thesis using a by (auto simp: patternRoutes_def)
  next
    case 2
    then show ?thesis using Cons.IH[OF b] by auto
  qed
qed

lemma extractRoutes_total: "\<exists>rs. extractRoutes text = Some rs"
  unfolding extractRoutes_def using scanPatterns_total routePatterns_consuming by blast

lemma scanExpress_total:
  "(\<And>r. r \<in> set res \<Longrightarrow> consuming r) \<Longrightarrow> \<exists>rs. scanExpress res text = Some rs"
proof (induction res)
  case Nil
  then show ?case by simp
next
  case (Cons r res)
  obtain a where a: "execAll r text = Some a" using execAll_total[of r "text"] Cons.prems by auto
  obtain b where "scanExpress res text = Some b" using Cons by auto
  then show ?case using a by simp
qed

lemma scanExpress_mem:
  "scanExpress res text = Some rs \<Longrightarrow> x \<in> set rs \<Longrightarrow>
     \<exists>r \<in> set res. \<exists>ms. execAll r text = Some ms \<and> (\<exists>mt \<in> set ms. x = expressRoute mt)"
proof (induction res arbitrary: rs)
  case Nil
  then show ?case by simp
next
  case (Cons r res)
  from Cons.prems(1) obtain a b where a: "execAll r text = Some a"
    and b: "scanExpress res text = Some b" and rs: "rs = map expressRoute a @ b"
    by (auto split: option.splits)
  from Cons.prems(2) rs consider "x \<in> set (map expressRoute a)" | "x \<in> set b" by auto
  then show ?case
  proof cases
    case 1
    then show ?thesis using a by auto
  next
    case 2
    then show ?thesis using Cons.IH[OF b] by auto
  qed
qed

lemma extractExpressRoutes_total: "\<exists>rs. extractExpressRoutes text = Some rs"
  unfolding extractExpressRoutes_def
  by (rule scanExpress_total) (auto simp: consuming_patterns)

lemma callRe_group1:
  assumes "(s', c') \<in> set (m (callRe recv) s c)"
  shows "\<exists>w \<in> set verbs. c' 1 = Some w"
proof -
  define rest where "rest = seqs [Cls ''('', Cls quoteChars, Grp 2 (Plus (NCls quoteChars)),
     Cls quoteChars, Cls '','', Star (Cls spaceChars), Grp 3 (Plus (NCls '',)''))]"
  have shape: "callRe recv = Seq (lit recv) (Seq (Cls ''.'') (Seq (Grp 1 (alts (map lit verbs))) rest))"
    by (simp add: callRe_def rest_def seqs_def)
  have fr: "1 \<notin> set (groups rest)" by (simp add: rest_def seqs_def Plus_def)
  have ne: "verbs \<noteq> []" by (simp add: verbs_def)
  from assms obtain s1 c1 s2 c2 s3 c3 where
    "(s3, c3) \<in> set (m (Grp 1 (alts (map lit verbs))) s2 c2)" "(s', c') \<in> set (m rest s3 c3)"
    unfolding shape m_Seq_mem by blast
  then show ?thesis using m_Grp_alts_lit[OF ne] m_frame[OF _ fr] by fastforce
qed

lemma nestRe_group1:
  assumes "(s', c') \<in> set (m nestRe s c)"
  shows "\<exists>w \<in> set Verbs. c' 1 = Some w"
proof -
  define rest where "rest = seqs [Cls ''('', Cls quoteChars,
     Grp 2 (Star (NCls quoteChars)), Cls quoteChars, Cls '')'']"
  have shape: "nestRe = Seq (Cls ''@'') (Seq (Grp 1 (alts (map lit Verbs))) rest)"
    by (simp add: nestRe_def rest_def seqs_def)
  have fr: "1 \<notin> set (groups rest)" by (simp add: rest_def seqs_def)
  have ne: "Verbs \<noteq> []" by (simp add: Verbs_def)
  from assms obtain s2 c2 s3 c3 where
    "(s3, c3) \<in> set (m (Grp 1 (alts (map lit Verbs))) s2 c2)" "(s', c') \<in> set (m rest s3 c3)"
    unfolding shape m_Seq_mem by blast
  then show ?thesis using m_Grp_alts_lit[OF ne] m_frame[OF _ fr] by fastforce
qed

text \<open>
  C9.  Every route of the pattern scan carries the fixed three-parameter shape
  \<open>(req: Request)\<close>, \<open>(res: Response)\<close>, \<open>(next?: NextFunction)\<close>, whatever handler text
  the match captured; the scan always returns.  The same holds for the scan of the Express
  extractor.
\<close>

theorem fixed_parameter_shape:
  "(\<exists>rs. extractRoutes text = Some rs \<and> (\<forall>r \<in> set rs. parameters r = threeParameters))
   \<and> (\<exists>rs. extractExpressRoutes text = Some rs \<and> (\<forall>r \<in> set rs. parameters r = threeParameters))"
proof
  obtain rs where rs: "extractRoutes text = Some rs" using extractRoutes_total by blast
  have "parameters r = threeParameters" if mem: "r \<in> set rs" for r
  proof -
    obtain p mt where "r \<in> set (matchRoute p mt)"
      using scanPatterns_mem[OF rs[unfolded extractRoutes_def] mem] by blast
    then show ?thesis
      by (auto simp: matchRoute_def extractRouteParameters_def threeParameters_def split: if_splits prod.splits)
  qed
  then show "\<exists>rs. extractRoutes text = Some rs \<and> (\<forall>r \<in> set rs. parameters r = threeParameters)"
    using rs by blast
next
  obtain rs where rs: "extractExpressRoutes text = Some rs" using extractExpressRoutes_total by blast
  have "parameters r = threeParameters" if mem: "r \<in> set rs" for r
  proof -
    obtain mt where "r = expressRoute mt"
      using scanExpress_mem[OF rs[unfolded extractExpressRoutes_def] mem] by blast
    then show ?thesis
      by (auto simp: expressRoute_def extractParameters_def threeParameters_def split: prod.splits)
  qed
  then show "\<exists>rs. extractExpressRoutes text = Some rs \<and> (\<forall>r \<in> set rs. parameters r = threeParameters)"
    using rs by blast
qed

theorem fixed_parameter_shape_witness:
  "map_option (map (\<lambda>r. (handler r, parameters r))) (extractRoutes arrowCallText)
     = Some [(''anonymous'', threeParameters)]
   \<and> map_option (map (\<lambda>r. (handler r, parameters r))) (extractExpressRoutes arrowCallText)
     = Some [(''anonymous'', threeParameters)]"
proof -
  have e: "map_option (map handler) (extractRoutes arrowCallText) = Some [''anonymous'']"
    "map_option (map handler) (extractExpressRoutes arrowCallText) = Some [''anonymous'']"
    by code_simp+
  from fixed_parameter_shape[of arrowCallText] e show ?thesis by auto
qed

section \<open>Route methods\<close>

lemma orElse_nonempty: "d \<noteq> [] \<Longrightarrow> orElse x d \<noteq> []"
  by (simp add: orElse_def split: option.splits)

lemma matchRoute_single:
  "matchRoute p (post, c) =
     [\<lparr>path = extractPath c, route_method = extractMethod c, handler = extractHandler c post,
       middleware = extractMiddleware, parameters = extractRouteParameters (extractHandler c post),
       framework = detectFrameworkFromPattern p\<rparr>]"
  by (simp add: matchRoute_def extractMethod_def extractPath_def orElse_nonempty)

lemma upper_verbs:
  "\<forall>w \<in> set verbs. toUpperCase w \<in> set httpVerbs" "\<forall>w \<in> set Verbs. toUpperCase w \<in> set httpVerbs"
  by code_simp+

lemma routePatterns_group1:
  assumes "p \<in> set routePatterns" "(s', c') \<in> set (m (regex p) s c)"
  shows "\<exists>w \<in> set verbs \<union> set Verbs. c' 1 = Some w"
proof -
  from assms(1) consider recv where "regex p = callRe recv" | "regex p = nestRe"
    by (auto simp: routePatterns_def callPattern_def nestPattern_def)
  then show ?thesis
    using assms(2) callRe_group1 nestRe_group1 by cases (metis UnI1 UnI2)+
qed

lemma extractMethod_verbs:
  assumes "w \<in> set verbs \<union> set Verbs" "c 1 = Some w"
  shows "extractMethod c \<in> set httpVerbs"
proof -
  have u: "toUpperCase w \<in> set httpVerbs" using assms(1) upper_verbs by blast
  then have "toUpperCase w \<noteq> []" by (auto simp: httpVerbs_def)
  then show ?thesis using u assms(2) by (simp add: extractMethod_def orElse_def)
qed

lemma extractRoutes_method:
  assumes "extractRoutes text = Some rs" "r \<in> set rs"
  shows "route_method r \<in> set httpVerbs"
proof -
  obtain p ms mt where p: "p \<in> set routePatterns" and ms: "execAll (regex p) text = Some ms"
    and mt: "mt \<in> set ms" and r: "r \<in> set (matchRoute p mt)"
    using scanPatterns_mem[OF assms(1)[unfolded extractRoutes_def] assms(2)] by blast
  obtain post c where pc: "mt = (post, c)" by (cases mt)
  obtain t where "(post, c) \<in> set (m (regex p) t Map.empty)"
    using execAll_mem[OF ms] mt pc by blast
  then obtain w where "w \<in> set verbs \<union> set Verbs" "c 1 = Some w"
    using routePatterns_group1[OF p] by blast
  then have "extractMethod c \<in> set httpVerbs" by (rule extractMethod_verbs)
  then show ?thesis using r unfolding pc matchRoute_single by simp
qed

lemma upper_routeDecorators: "\<forall>w \<in> set routeDecorators. toUpperCase w \<in> set (httpVerbs @ [''ALL''])"
  by code_simp

lemma extractRouteFromMethod_method:
  assumes "extractRouteFromMethod md cd = Some r"
  shows "route_method r \<in> set (httpVerbs @ [''ALL''])"
proof -
  from assms obtain d where d: "find (\<lambda>d. decorator_name d \<in> set routeDecorators) (method_decorators md) = Some d"
    and r: "route_method r = toUpperCase (decorator_name d)"
    by (auto simp: extractRouteFromMethod_def Let_def split: option.splits)
  from d have "decorator_name d \<in> set routeDecorators" by (auto simp: find_Some_iff)
  then show ?thesis using r upper_routeDecorators by metis
qed

lemma classRoutes_method: "r \<in> set (classRoutes cd) \<Longrightarrow> route_method r \<in> set (httpVerbs @ [''ALL''])"
  using extractRouteFromMethod_method
  by (auto simp: classRoutes_def split: if_splits option.splits simp del: set_append)

lemma extractControllers_method:
  "c \<in> set (extractControllers f) \<Longrightarrow> r \<in> set (routes c) \<Longrightarrow> route_method r \<in> set (httpVerbs @ [''ALL''])"
  using classRoutes_method
  by (auto simp: extractControllers_def split: if_splits simp del: set_append)

lemma extractFiles_total: "\<exists>e. extractFiles acc fs = Some e"
proof (induction fs arbitrary: acc)
  case Nil
  then show ?case by simp
next
  case (Cons f fs)
  obtain rs where "extractRoutes (fullText f) = Some rs" using extractRoutes_total by blast
  then show ?case using Cons.IH by (simp add: Let_def)
qed

lemma extractFiles_method:
  assumes "extractFiles acc fs = Some e"
    and "\<forall>r \<in> set (all_routes acc). route_method r \<in> set (httpVerbs @ [''ALL''])"
  shows "\<forall>r \<in> set (all_routes e). route_method r \<in> set (httpVerbs @ [''ALL''])"
  using assms
proof (induction fs arbitrary: acc)
  case Nil
  then show ?case by simp
next
  case (Cons f fs)
  show ?case
  proof (cases "shouldSkipFile f")
    case True
    then show ?thesis using Cons by simp
  next
    case False
    obtain rs where rs: "extractRoutes (fullText f) = Some rs" using extractRoutes_total by blast
    let ?acc = "\<lparr>all_routes = all_routes acc @ concat (map routes (extractControllers f)) @ rs,
                all_controllers = all_controllers acc @ extractControllers f,
                all_services = all_services acc @ extractServices f\<rparr>"
    have step: "extractFiles ?acc fs = Some e" using Cons.prems(1) False rs by (simp add: Let_def)
    have "\<forall>r \<in> set (all_routes ?acc). route_method r \<in> set (httpVerbs @ [''ALL''])"
      using Cons.prems(2) extractControllers_method[of _ f] extractRoutes_method[OF rs]
      by (auto simp del: set_append) (auto)
    then show ?thesis using Cons.IH[OF step] by blast
  qed
qed

text \<open>
  C8, amended.  The method of every route of the pattern scan is one of \<open>GET\<close>, \<open>POST\<close>,
  \<open>PUT\<close>, \<open>DELETE\<close>, \<open>PATCH\<close>.  The method of a route read from a controller's annotated
  methods, and so of any route of the whole extraction, is one of these five or \<open>ALL\<close>.
\<close>

theorem route_methods:
  "(\<exists>rs. extractRoutes text = Some rs \<and> (\<forall>r \<in> set rs. route_method r \<in> set httpVerbs))
   \<and> (\<forall>c \<in> set (extractControllers f). \<forall>r \<in> set (routes c). route_method r \<in> set (httpVerbs @ [''ALL'']))
   \<and> (\<exists>e. extractAll fs = Some e \<and> (\<forall>r \<in> set (all_routes e). route_method r \<in> set (httpVerbs @ [''ALL''])))"
proof (intro conjI)
  show "\<exists>rs. extractRoutes text = Some rs \<and> (\<forall>r \<in> set rs. route_method r \<in> set httpVerbs)"
    using extractRoutes_total[of "text"] extractRoutes_method by blast
  show "\<forall>c \<in> set (extractControllers f). \<forall>r \<in> set (routes c). route_method r \<in> set (httpVerbs @ [''ALL''])"
    using extractControllers_method by blast
  obtain e where e: "extractAll fs = Some e" using extractFiles_total unfolding extractAll_def by blast
  have "\<forall>r \<in> set (all_routes e). route_method r \<in> set (httpVerbs @ [''ALL''])"
    by (rule extractFiles_method[OF e[unfolded extractAll_def]]) simp
  then show "\<exists>e. extractAll fs = Some e \<and> (\<forall>r \<in> set (all_routes e). route_method r \<in> set (httpVerbs @ [''ALL'']))"
    using e by blast
qed

theorem route_methods_witness:
  "map_option (map route_method) (extractRoutes (fullText bothFile)) = Some [''GET'', ''GET'']
   \<and> map (\<lambda>c. map route_method (routes c)) (extractControllers allFile) = [[''ALL'']]
   \<and> map_option (\<lambda>e. map route_method (all_routes e)) (extractAll [allFile, bothFile])
       = Some [''ALL'', ''GET'', ''GET'', ''GET'']"
proof -
  have e: "map_option (map route_method) (extractRoutes (fullText bothFile)) = Some [''GET'', ''GET'']"
    "map (\<lambda>c. map route_method (routes c)) (extractControllers allFile) = [[''ALL'']]"
    "map_option (\<lambda>e. map route_method (all_routes e)) (extractAll [allFile, bothFile])
       = Some [''ALL'', ''GET'', ''GET'', ''GET'']"
    by code_simp+
  from route_methods[of "fullText bothFile" allFile "[allFile, bothFile]"] e show ?thesis by blast
qed

theorem route_methods_counterexample:
  "map_option (\<lambda>e. map route_method (all_routes e)) (extractAll [allFile]) = Some [''ALL'']
   \<and> ''ALL'' \<notin> set httpVerbs"
  by code_simp

section \<open>The router pattern\<close>

lemma frameworks: "map detectFrameworkFromPattern routePatterns = [Express, Koa, NestJS, Fastify, Koa]"
  by code_simp

lemma frameworks_each:
  "detectFrameworkFromPattern (callPattern ''app'') = Express"
  "detectFrameworkFromPattern (callPattern ''router'') = Koa"
  "detectFrameworkFromPattern nestPattern = NestJS"
  "detectFrameworkFromPattern (callPattern ''fastify'') = Fastify"
  using frameworks by (simp_all add: routePatterns_def)

lemma patternRoutes_execAll:
  "execAll (regex p) text = Some ms \<Longrightarrow>
     patternRoutes p text = Some (concat (map (matchRoute p) ms))
     \<and> length (concat (map (matchRoute p) ms)) = length ms
     \<and> (\<forall>r \<in> set (concat (map (matchRoute p) ms)). framework r = detectFrameworkFromPattern p)"
proof -
  assume e: "execAll (regex p) text = Some ms"
  have "length (concat (map (matchRoute p) xs)) = length xs" for xs
    by (induction xs) (auto simp: matchRoute_single)
  moreover have "\<forall>r \<in> set (concat (map (matchRoute p) xs)). framework r = detectFrameworkFromPattern p" for xs
    by (induction xs) (auto simp: matchRoute_single)
  ultimately show ?thesis using e by (simp add: patternRoutes_def)
qed

lemma regex_simps:
  "regex (callPattern recv) = callRe recv" "regex nestPattern = nestRe"
  by (simp_all add: callPattern_def nestPattern_def)

text \<open>
  C10.  For every file text the pattern scan returns the routes of the \<open>router\<close> pattern
  twice, at the second and at the fifth place of the pattern order, one route for each match
  of the pattern; both copies carry the framework tag \<open>koa\<close>, and no route of the other
  three patterns does.
\<close>

theorem router_routes_twice:
  "\<exists>ms a n f.
     execAll (callRe ''router'') text = Some ms
     \<and> extractRoutes text =
         Some (a @ concat (map (matchRoute (callPattern ''router'')) ms) @ n @ f
                 @ concat (map (matchRoute (callPattern ''router'')) ms))
     \<and> length (concat (map (matchRoute (callPattern ''router'')) ms)) = length ms
     \<and> (\<forall>r \<in> set (concat (map (matchRoute (callPattern ''router'')) ms)). framework r = Koa)
     \<and> (\<forall>r \<in> set (a @ n @ f). framework r \<noteq> Koa)"
proof -
  obtain as where as: "execAll (regex (callPattern ''app'')) text = Some as"
    using execAll_total consuming_patterns(1) unfolding regex_simps by blast
  obtain ms where ms: "execAll (regex (callPattern ''router'')) text = Some ms"
    using execAll_total consuming_patterns(1) unfolding regex_simps by blast
  obtain ns where ns: "execAll (regex nestPattern) text = Some ns"
    using execAll_total consuming_patterns(2) unfolding regex_simps by blast
  obtain fs where fs: "execAll (regex (callPattern ''fastify'')) text = Some fs"
    using execAll_total consuming_patterns(1) unfolding regex_simps by blast
  note A = patternRoutes_execAll[OF as] and R = patternRoutes_execAll[OF ms]
    and N = patternRoutes_execAll[OF ns] and F = patternRoutes_execAll[OF fs]
  let ?a = "concat (map (matchRoute (callPattern ''app'')) as)"
  let ?r = "concat (map (matchRoute (callPattern ''router'')) ms)"
  let ?n = "concat (map (matchRoute nestPattern) ns)"
  let ?f = "concat (map (matchRoute (callPattern ''fastify'')) fs)"
  have "extractRoutes text = Some (?a @ ?r @ ?n @ ?f @ ?r)"
    using A R N F by (simp add: extractRoutes_def routePatterns_def)
  moreover have "\<forall>r \<in> set ?r. framework r = Koa" using R frameworks_each by simp
  moreover have "\<forall>r \<in> set (?a @ ?n @ ?f). framework r \<noteq> Koa"
    using A N F frameworks_each by auto
  ultimately show ?thesis using ms R unfolding regex_simps by blast
qed

theorem router_routes_twice_witness:
  "map_option length (execAll (callRe ''router'') routerText) = Some 1
   \<and> map_option (map framework) (extractRoutes routerText) = Some [Koa, Koa]"
proof -
  have n: "map_option length (execAll (callRe ''router'') routerText) = Some 1" by code_simp
  have f: "map_option (map framework) (extractRoutes routerText) = Some [Koa, Koa]" by code_simp
  from router_routes_twice[of routerText] n f show ?thesis by blast
qed

section \<open>Handler names\<close>











section \<open>Assembly without de-duplication\<close>





section \<open>Grouping by controller\<close>

lemma map_of_setKey: "map_of (setKey ch k v) = (map_of ch)(k \<mapsto> v)"
  by (induction ch) (auto simp: fun_eq_iff)

lemma keys_setKey:
  "map fst (setKey ch k v) = (if k \<in> set (map fst ch) then map fst ch else map fst ch @ [k])"
  by (induction ch) (auto simp: rev_image_eqI)

lemma distinct_setKey: "distinct (map fst ch) \<Longrightarrow> distinct (map fst (setKey ch k v))"
  by (simp add: keys_setKey)

lemma chunksPush_ok:
  assumes "k \<notin> set objectPrototypeKeys"
  shows "\<exists>ch'. chunksPush ch k r = Inr ch'
     \<and> map_of ch' = (map_of ch)(k \<mapsto> (case map_of ch k of None \<Rightarrow> [] | Some old \<Rightarrow> old) @ [r])
     \<and> (distinct (map fst ch) \<longrightarrow> distinct (map fst ch'))"
  using assms by (auto simp: chunksPush_def map_of_setKey distinct_setKey split: option.splits)

lemma pushRoutes_ok:
  assumes "k \<notin> set objectPrototypeKeys"
  shows "\<exists>ch'. pushRoutes ch k rs = Inr ch'
     \<and> map_of ch' = (if rs = [] then map_of ch
          else (map_of ch)(k \<mapsto> (case map_of ch k of None \<Rightarrow> [] | Some old \<Rightarrow> old) @ rs))
     \<and> (distinct (map fst ch) \<longrightarrow> distinct (map fst ch'))"
proof (induction rs arbitrary: ch)
  case Nil
  then show ?case by simp
next
  case (Cons r rs)
  obtain ch1 where 1: "chunksPush ch k r = Inr ch1"
    "map_of ch1 = (map_of ch)(k \<mapsto> (case map_of ch k of None \<Rightarrow> [] | Some old \<Rightarrow> old) @ [r])"
    "distinct (map fst ch) \<longrightarrow> distinct (map fst ch1)"
    using chunksPush_ok[OF assms] by blast
  obtain ch2 where 2: "pushRoutes ch1 k rs = Inr ch2"
    "map_of ch2 = (if rs = [] then map_of ch1
          else (map_of ch1)(k \<mapsto> (case map_of ch1 k of None \<Rightarrow> [] | Some old \<Rightarrow> old) @ rs))"
    "distinct (map fst ch1) \<longrightarrow> distinct (map fst ch2)"
    using Cons.IH by blast
  show ?case using 1 2 by (auto simp: fun_eq_iff)
qed

lemma proto_last: "\<forall>p \<in> set objectPrototypeKeys. p = [] \<or> last p \<noteq> CHR ''s''"
  by code_simp

lemma extractModuleFromName_last:
  assumes "extractModuleFromName name = Some k"
  shows "k \<noteq> [] \<and> last k = CHR ''s''"
  using assms
  by (auto simp: extractModuleFromName_def Let_def suffix_single split: if_splits)

lemma extractModuleFromName_not_proto:
  "extractModuleFromName name = Some k \<Longrightarrow> k \<notin> set objectPrototypeKeys"
  using extractModuleFromName_last proto_last by blast

lemma extractModuleFromName_Some: "name \<noteq> [] \<Longrightarrow> \<exists>k. extractModuleFromName name = Some k"
  by (simp add: extractModuleFromName_def Let_def)

lemma groupControllers_ok:
  "\<exists>ch'. groupControllers ch cs = Inr ch'
     \<and> (\<forall>k. map_of ch' k = joinRoutes (map_of ch k) (ownedRoutes cs k))
     \<and> (distinct (map fst ch) \<longrightarrow> distinct (map fst ch'))"
proof (induction cs arbitrary: ch)
  case Nil
  then show ?case by (auto simp: ownedRoutes_def joinRoutes_def split: option.splits)
next
  case (Cons c cs)
  show ?case
  proof (cases "controller_name c = []")
    case True
    then show ?thesis using Cons.IH[of ch] by (simp add: ownedRoutes_def)
  next
    case False
    then obtain k where k: "extractModuleFromName (controller_name c) = Some k"
      using extractModuleFromName_Some by blast
    have kne: "k \<noteq> []" using extractModuleFromName_last[OF k] by simp
    obtain ch1 where 1: "pushRoutes ch k (routes c) = Inr ch1"
      "map_of ch1 = (if routes c = [] then map_of ch
          else (map_of ch)(k \<mapsto> (case map_of ch k of None \<Rightarrow> [] | Some old \<Rightarrow> old) @ routes c))"
      "distinct (map fst ch) \<longrightarrow> distinct (map fst ch1)"
      using pushRoutes_ok[OF extractModuleFromName_not_proto[OF k]] by blast
    obtain ch2 where 2: "groupControllers ch1 cs = Inr ch2"
      "\<forall>k. map_of ch2 k = joinRoutes (map_of ch1 k) (ownedRoutes cs k)"
      "distinct (map fst ch1) \<longrightarrow> distinct (map fst ch2)"
      using Cons.IH[of ch1] by blast
    have own: "ownedRoutes (c # cs) k' = (if k' = k then routes c @ ownedRoutes cs k' else ownedRoutes cs k')" for k'
      using False k by (auto simp: ownedRoutes_def)
    have "map_of ch2 k' = joinRoutes (map_of ch k') (ownedRoutes (c # cs) k')" for k'
      using 1(2) 2(2) own[of k'] by (auto simp: joinRoutes_def split: option.splits)
    then show ?thesis using False k kne 1 2 by simp
  qed
qed

lemma ownedRoutes_nonempty:
  assumes "c \<in> set cs" "controller_name c \<noteq> []" "routes c \<noteq> []"
  shows "\<exists>k. ownedRoutes cs k \<noteq> []"
proof -
  obtain k where "extractModuleFromName (controller_name c) = Some k"
    using extractModuleFromName_Some[OF assms(2)] by blast
  then have "ownedRoutes cs k \<noteq> []" using assms by (auto simp: ownedRoutes_def)
  then show ?thesis ..
qed

lemma ownedRoutes_mem: "r \<in> set (ownedRoutes cs k) \<Longrightarrow> \<exists>c \<in> set cs. controller_name c \<noteq> [] \<and> r \<in> set (routes c)"
  by (auto simp: ownedRoutes_def)

text \<open>
  C1.  If a controller with a non-empty name and at least one route is supplied, the grouping
  returns the controller-direct mapping: under each key stand, in order, the routes of the
  controllers with a non-empty name whose derived module name the key is.  The result does not
  depend on the routes and services supplied, so no fallback strategy has run, and every
  grouped route belongs to a supplied controller.
\<close>

theorem controller_first_grouping:
  assumes "\<exists>c \<in> set controllers. controller_name c \<noteq> [] \<and> routes c \<noteq> []"
  shows "\<exists>chunks. groupRoutesByController rs services controllers = Inr chunks
     \<and> groupRoutesByController [] [] controllers = Inr chunks
     \<and> distinct (map fst chunks)
     \<and> (\<forall>k. map_of chunks k =
           (if ownedRoutes controllers k = [] then None else Some (ownedRoutes controllers k)))
     \<and> (\<forall>(k, krs) \<in> set chunks. \<forall>r \<in> set krs.
           \<exists>c \<in> set controllers. controller_name c \<noteq> [] \<and> r \<in> set (routes c))"
proof -
  obtain ch where ch: "groupControllers [] controllers = Inr ch"
    and m: "\<forall>k. map_of ch k = joinRoutes (map_of [] k) (ownedRoutes controllers k)"
    and d: "distinct (map fst ch)"
    using groupControllers_ok[of "[]" controllers] by auto
  have mk: "map_of ch k = (if ownedRoutes controllers k = [] then None else Some (ownedRoutes controllers k))" for k
    using m by (simp add: joinRoutes_def)
  obtain k where "ownedRoutes controllers k \<noteq> []" using assms ownedRoutes_nonempty by blast
  then have "map_of ch k \<noteq> None" using mk by simp
  then have ne: "ch \<noteq> []" by auto
  have mem: "\<exists>c \<in> set controllers. controller_name c \<noteq> [] \<and> r \<in> set (routes c)"
    if "(k, krs) \<in> set ch" "r \<in> set krs" for k krs r
  proof -
    have "map_of ch k = Some krs" using that(1) d by simp
    then have "krs = ownedRoutes controllers k" using mk[of k] by (simp split: if_splits)
    then show ?thesis using that(2) ownedRoutes_mem by blast
  qed
  have "groupRoutesByController rs services controllers = Inr ch" for rs services
    using ch ne by (simp add: groupRoutesByController_def)
  then show ?thesis using d mk mem by blast
qed

theorem controller_first_grouping_witness:
  "groupRoutesByController [sampleRoute ''/orders'' ''listOrders''] [sampleService ''OrdersService'']
       [sampleController ''UsersController'' [sampleRoute ''/users'' ''list'']]
     = Inr [(''users'', [sampleRoute ''/users'' ''list''])]"
proof -
  have h: "\<exists>c \<in> set [sampleController ''UsersController'' [sampleRoute ''/users'' ''list'']].
      controller_name c \<noteq> [] \<and> routes c \<noteq> []"
    by (simp add: sampleController_def)
  have e: "groupRoutesByController [] [] [sampleController ''UsersController'' [sampleRoute ''/users'' ''list'']]
     = Inr [(''users'', [sampleRoute ''/users'' ''list''])]"
    by code_simp
  from controller_first_grouping[OF h, of "[sampleRoute ''/orders'' ''listOrders'']" "[sampleService ''OrdersService'']"] e
  show ?thesis by auto
qed

text \<open>
  Where the grouping falls back, every key of its result is a sanitized name: sanitizing
  the key again changes nothing.
\<close>

lemma set_keys_setKey: "set (map fst (setKey ch k v)) = insert k (set (map fst ch))"
  unfolding keys_setKey by auto

lemma chunksPush_keys:
  assumes "chunksPush ch k r = Inr ch'"
  shows "set (map fst ch') = insert k (set (map fst ch))"
proof -
  from assms obtain v where "ch' = setKey ch k v"
    by (auto simp: chunksPush_def split: option.splits if_splits)
  then show ?thesis by (simp only: set_keys_setKey)
qed

lemma groupFallback_keys:
  "groupFallback sm ch i rs = Inr ch' \<Longrightarrow> k \<in> set (map fst ch') \<Longrightarrow>
     k \<in> set (map fst ch) \<or> (\<exists>w. k = sanitize w)"
proof (induction rs arbitrary: ch i)
  case Nil
  then show ?case by simp
next
  case (Cons r rs)
  from Cons.prems(1) obtain ch1 where 1: "chunksPush ch (sanitize (fallbackModule sm r i)) r = Inr ch1"
    and 2: "groupFallback sm ch1 (Suc i) rs = Inr ch'"
    by (auto split: sum.splits)
  from Cons.IH[OF 2 Cons.prems(2)] chunksPush_keys[OF 1] show ?case by auto
qed

lemma sanitize_idem: "sanitize (sanitize w) = sanitize w"
proof -
  have "CHR ''_'' \<in> set moduleChars" by code_simp
  then show ?thesis by (simp add: sanitize_def)
qed

lemma fallback_keys_sanitized:
  assumes "groupControllers [] controllers = Inr []"
    and "groupRoutesByController rs services controllers = Inr chunks"
    and "k \<in> set (map fst chunks)"
  shows "sanitize k = k"
proof -
  have "groupFallback (serviceModules [] services) [] 0 rs = Inr chunks"
    using assms(1,2) by (simp add: groupRoutesByController_def)
  from groupFallback_keys[OF this assms(3)] show ?thesis by (auto simp: sanitize_idem)
qed

text \<open>
  C2.  The controller-direct path uses the derived module name as the key without sanitizing
  it: the controller names \<open>Billing$Controller\<close> and \<open>Admin UserController\<close> give the keys
  \<open>billing$s\<close> and \<open>admin users\<close>, where sanitizing gives \<open>billing_s\<close> and
  \<open>admin_users\<close>.  The fallback path does sanitize: the path segment \<open>admin users\<close> gives
  the key \<open>admin_users\<close>.
\<close>

theorem controller_names_not_sanitized:
  "groupRoutesByController [] [] [sampleController ''Billing$Controller'' [sampleRoute ''/b'' ''h'']]
     = Inr [(''billing$s'', [sampleRoute ''/b'' ''h''])]
   \<and> sanitize ''billing$s'' = ''billing_s''
   \<and> groupRoutesByController [] [] [sampleController ''Admin UserController'' [sampleRoute ''/a'' ''h'']]
     = Inr [(''admin users'', [sampleRoute ''/a'' ''h''])]
   \<and> sanitize ''admin users'' = ''admin_users''
   \<and> groupRoutesByController [sampleRoute ''/admin users/a'' ''h''] [] []
     = Inr [(''admin_users'', [sampleRoute ''/admin users/a'' ''h''])]"
  by code_simp

section \<open>The round-robin fallback\<close>









section \<open>Path composition\<close>

text \<open>
  C5.  For a route method with route decorator \<open>d\<close>, base path \<open>b\<close> and method path \<open>p\<close>:
  if \<open>b\<close> is not empty the route's path is \<open>/\<close>, \<open>b\<close>, and then nothing if \<open>p\<close> is \<open>/\<close>
  and else \<open>/\<close> and \<open>p\<close> without its leading slash; if \<open>b\<close> is empty the path is \<open>p\<close>.
  Base path \<open>users\<close> with method path \<open>/:id\<close> gives \<open>/users/:id\<close>, and the empty base
  path with \<open>/\<close> gives \<open>/\<close>.
\<close>

theorem path_composition:
  assumes "find (\<lambda>d. decorator_name d \<in> set routeDecorators) (method_decorators md) = Some d"
    and "b = basePathOf cd" and "p = routePathOf d"
  shows "\<exists>r. extractRouteFromMethod md cd = Some r
     \<and> (b \<noteq> [] \<longrightarrow> path r = ''/'' @ b @ (if p = ''/'' then [] else ''/'' @ (if prefix ''/'' p then tl p else p)))
     \<and> (b = [] \<longrightarrow> path r = p)
     \<and> map_option path (extractRouteFromMethod (annotatedMethod ''Get'' [quoted ''/:id''])
           (controllerClass [quoted ''users''] [])) = Some ''/users/:id''
     \<and> map_option path (extractRouteFromMethod (annotatedMethod ''Get'' [quoted ''/''])
           (controllerClass [quoted []] [])) = Some ''/''"
proof -
  have strip: "stripLeadingSlash q = (if prefix ''/'' q then tl q else q)" for q
    by (cases q) (auto simp: stripLeadingSlash_def)
  have ex: "map_option path (extractRouteFromMethod (annotatedMethod ''Get'' [quoted ''/:id''])
           (controllerClass [quoted ''users''] [])) = Some ''/users/:id''"
    "map_option path (extractRouteFromMethod (annotatedMethod ''Get'' [quoted ''/''])
           (controllerClass [quoted []] [])) = Some ''/''"
    by code_simp+
  have "\<exists>r. extractRouteFromMethod md cd = Some r
     \<and> (b \<noteq> [] \<longrightarrow> path r = ''/'' @ b @ (if p = ''/'' then [] else ''/'' @ (if prefix ''/'' p then tl p else p)))
     \<and> (b = [] \<longrightarrow> path r = p)"
    using assms by (simp add: extractRouteFromMethod_def Let_def strip)
  then show ?thesis using ex by blast
qed

theorem path_composition_witness:
  "find (\<lambda>d. decorator_name d \<in> set routeDecorators)
       (method_decorators (annotatedMethod ''Get'' [quoted ''/:id'']))
     = Some \<lparr>decorator_name = ''Get'', arguments = [quoted ''/:id'']\<rparr>
   \<and> basePathOf (controllerClass [quoted ''users''] []) = ''users''
   \<and> routePathOf \<lparr>decorator_name = ''Get'', arguments = [quoted ''/:id'']\<rparr> = ''/:id''
   \<and> map_option path (extractRouteFromMethod (annotatedMethod ''Get'' [quoted ''/:id''])
           (controllerClass [quoted ''users''] [])) = Some ''/users/:id''
   \<and> basePathOf (controllerClass [] []) = []
   \<and> map_option path (extractRouteFromMethod (annotatedMethod ''Get'' [quoted ''/:id''])
           (controllerClass [] [])) = Some ''/:id''"
proof -
  let ?d = "\<lparr>decorator_name = ''Get'', arguments = [quoted ''/:id'']\<rparr>"
  have f: "find (\<lambda>d. decorator_name d \<in> set routeDecorators)
       (method_decorators (annotatedMethod ''Get'' [quoted ''/:id''])) = Some ?d"
    by (simp add: annotatedMethod_def routeDecorators_def)
  have b: "basePathOf (controllerClass [quoted ''users''] []) = ''users''"
    "basePathOf (controllerClass [] []) = []" "routePathOf ?d = ''/:id''"
    by code_simp+
  from path_composition[OF f b(1)[symmetric] b(3)[symmetric]]
    path_composition[OF f b(2)[symmetric] b(3)[symmetric]] f b
  show ?thesis by auto
qed

end
